theory Spec2Isabelle
  imports Main
begin

section \<open>Mirroring a local directory tree into a remote drive\<close>

text \<open>
  The development embeds \<^verbatim>\<open>copy-to-gdrive.py\<close>: the two wrappers around the remote
  store (\<^verbatim>\<open>create_folder\<close>, \<^verbatim>\<open>upload_file\<close>) and the mirror driver
  \<^verbatim>\<open>upload_directory\<close>. The driver leans on three library functions,
  \<^verbatim>\<open>os.walk\<close>, \<^verbatim>\<open>os.path.relpath\<close> and \<^verbatim>\<open>str.split\<close>; they are modelled on
  strings after the POSIX implementation of the standard library, so that the path
  decomposition the driver performs is computed and not postulated.
\<close>

subsection \<open>Strings and POSIX paths\<close>

text \<open>\<^verbatim>\<open>os.sep\<close> on a POSIX system.\<close>

definition sep :: char where
  "sep = CHR ''/''"

text \<open>
  \<^verbatim>\<open>s.split(os.sep)\<close>: the pieces between separators, in order. The result is never
  empty: a string without separator is its own single piece, the empty string included.
\<close>

fun split_sep :: "string \<Rightarrow> string list" where
  "split_sep [] = [[]]"
| "split_sep (c # cs) =
     (if c = sep then [] # split_sep cs
      else (c # hd (split_sep cs)) # tl (split_sep cs))"

text \<open>\<^verbatim>\<open>os.sep.join(comps)\<close>.\<close>

fun sep_join :: "string list \<Rightarrow> string" where
  "sep_join [] = []"
| "sep_join [x] = x"
| "sep_join (x # y # ys) = x @ sep # sep_join (y # ys)"

text \<open>
  One round of the loop of \<^verbatim>\<open>posixpath.join(a, *p)\<close>: an absolute component
  replaces what was joined so far, otherwise the component is appended, after a
  separator unless the path is empty or ends with one.
\<close>

definition join_step :: "string \<Rightarrow> string \<Rightarrow> string" where
  "join_step path b =
     (if b \<noteq> [] \<and> hd b = sep then b
      else if path = [] \<or> last path = sep then path @ b
      else path @ sep # b)"

definition path_join :: "string \<Rightarrow> string list \<Rightarrow> string" where
  "path_join a p = foldl join_step a p"

text \<open>\<^verbatim>\<open>posixpath.isabs\<close> and \<^verbatim>\<open>posixpath.basename\<close>.\<close>

definition isabs :: "string \<Rightarrow> bool" where
  "isabs s = (s \<noteq> [] \<and> hd s = sep)"

definition basename :: "string \<Rightarrow> string" where
  "basename p = rev (takeWhile (\<lambda>c. c \<noteq> sep) (rev p))"

text \<open>
  \<^verbatim>\<open>posixpath.normpath\<close>. The loop over the components keeps a stack
  \<^verbatim>\<open>new_comps\<close>; \<open>norm_step\<close> is one round of it. \<open>initial_slashes\<close> is 0, 1 or 2
  (exactly two leading slashes are kept, three or more collapse to one).
\<close>

definition norm_step :: "nat \<Rightarrow> string list \<Rightarrow> string \<Rightarrow> string list" where
  "norm_step initial_slashes new_comps component =
     (if component = [] \<or> component = ''.'' then new_comps
      else if component \<noteq> ''..'' \<or> (initial_slashes = 0 \<and> new_comps = [])
              \<or> (new_comps \<noteq> [] \<and> last new_comps = ''..'')
      then new_comps @ [component]
      else if new_comps \<noteq> [] then butlast new_comps
      else new_comps)"

definition initial_slashes_of :: "string \<Rightarrow> nat" where
  "initial_slashes_of path =
     (if \<not> isabs path then 0
      else if take 2 path = [sep, sep] \<and> take 3 path \<noteq> [sep, sep, sep] then 2
      else 1)"

definition normpath :: "string \<Rightarrow> string" where
  "normpath path =
     (if path = [] then ''.''
      else
        let initial_slashes = initial_slashes_of path;
            comps = foldl (norm_step initial_slashes) [] (split_sep path);
            path' = replicate initial_slashes sep @ sep_join comps
        in if path' = [] then ''.'' else path')"

text \<open>
  Python exceptions, as far as the program can meet them. \<open>Exception\<close> stands for
  any instance of \<^verbatim>\<open>Exception\<close> not named here (the errors of the HTTP client among
  them); \<^verbatim>\<open>KeyboardInterrupt\<close> and \<^verbatim>\<open>SystemExit\<close> derive from
  \<^verbatim>\<open>BaseException\<close> only. \<open>is_Exception e\<close> is \<^verbatim>\<open>isinstance(e, Exception)\<close>, which
  is what a handler \<^verbatim>\<open>except Exception\<close> tests, and \<open>str_exn e\<close> is \<^verbatim>\<open>str(e)\<close>.
\<close>

datatype exn =
    ValueError string
  | FileNotFoundError string
  | Exception string
  | KeyboardInterrupt
  | SystemExit

fun is_Exception :: "exn \<Rightarrow> bool" where
  "is_Exception KeyboardInterrupt = False"
| "is_Exception SystemExit = False"
| "is_Exception (ValueError m) = True"
| "is_Exception (FileNotFoundError m) = True"
| "is_Exception (Exception m) = True"

fun str_exn :: "exn \<Rightarrow> string" where
  "str_exn (ValueError m) = m"
| "str_exn (FileNotFoundError m) = m"
| "str_exn (Exception m) = m"
| "str_exn KeyboardInterrupt = []"
| "str_exn SystemExit = []"

text \<open>
  \<^verbatim>\<open>posixpath.abspath\<close>. A relative path is joined to the working directory, for
  which \<^verbatim>\<open>os.getcwd()\<close> is called; the parameter \<open>getcwd\<close> is what that call does:
  it returns the working directory, or it raises (\<^verbatim>\<open>FileNotFoundError\<close> when the
  working directory has been removed). An absolute path does not need the call.
\<close>

definition abspath :: "exn + string \<Rightarrow> string \<Rightarrow> exn + string" where
  "abspath getcwd path =
     (if isabs path then Inr (normpath path)
      else case getcwd of
             Inl e \<Rightarrow> Inl e
           | Inr cwd \<Rightarrow> Inr (normpath (path_join cwd [path])))"

text \<open>
  \<^verbatim>\<open>genericpath.commonprefix\<close> on two lists of components: the longest common
  leading part. (The library takes the minimum and the maximum of its arguments first;
  on two lists the result is the same.)
\<close>

fun commonprefix :: "string list \<Rightarrow> string list \<Rightarrow> string list" where
  "commonprefix (x # xs) (y # ys) = (if x = y then x # commonprefix xs ys else [])"
| "commonprefix _ _ = []"

text \<open>
  \<^verbatim>\<open>posixpath.relpath(path, start)\<close>: raises \<^verbatim>\<open>ValueError\<close> on an empty path and
  lets the exception of \<^verbatim>\<open>abspath\<close> through (first for \<open>start\<close>, then for \<open>path\<close>);
  otherwise it climbs from \<open>start\<close> to the common ancestor and descends to \<open>path\<close>.
\<close>

definition relpath :: "exn + string \<Rightarrow> string \<Rightarrow> string \<Rightarrow> exn + string" where
  "relpath getcwd path start =
     (if path = [] then Inl (ValueError ''no path specified'')
      else
        case abspath getcwd start of
          Inl e \<Rightarrow> Inl e
        | Inr start_abs \<Rightarrow>
            (case abspath getcwd path of
               Inl e \<Rightarrow> Inl e
             | Inr path_abs \<Rightarrow>
                 let start_list = filter (\<lambda>x. x \<noteq> []) (split_sep start_abs);
                     path_list = filter (\<lambda>x. x \<noteq> []) (split_sep path_abs);
                     i = length (commonprefix start_list path_list);
                     rel_list = replicate (length start_list - i) ''..'' @ drop i path_list
                 in if rel_list = [] then Inr ''.''
                    else Inr (path_join (hd rel_list) (tl rel_list))))"

subsection \<open>The local tree and \<^verbatim>\<open>os.walk\<close>\<close>

text \<open>
  A directory holds the names of its files and its named subdirectories, both in the
  order in which the operating system lists them.
\<close>

datatype dir = Dir "string list" "(string \<times> dir) list"

text \<open>
  \<^verbatim>\<open>os.walk(top)\<close>, top-down: the triple \<^verbatim>\<open>(root, dirs, files)\<close> of a directory
  comes before the triples of its subdirectories, and the root of a subdirectory is
  \<^verbatim>\<open>join(top, dirname)\<close>. Listing the empty path fails, and \<^verbatim>\<open>os.walk\<close> ignores
  the error: it yields nothing.
\<close>

fun walk :: "string \<Rightarrow> dir \<Rightarrow> (string \<times> string list \<times> string list) list" where
  "walk top_path (Dir files subdirs) =
     (top_path, map fst subdirs, files)
       # concat (map (\<lambda>(dirname, d). walk (path_join top_path [dirname]) d) subdirs)"

definition os_walk :: "string \<Rightarrow> dir \<Rightarrow> (string \<times> string list \<times> string list) list" where
  "os_walk top_path d = (if top_path = [] then [] else walk top_path d)"

subsection \<open>The remote store\<close>

text \<open>
  The body of a \<^verbatim>\<open>files().create\<close> request. The dictionary \<^verbatim>\<open>file_metadata\<close> of
  the program always has a name, and a MIME type and parents only when they were set.
\<close>

record file_metadata =
  name :: string
  mimeType :: "string option"
  parents :: "string list option"

text \<open>
  The response of the remote store is a dictionary; \<^verbatim>\<open>.get('id')\<close> looks the key up
  and yields \<^verbatim>\<open>None\<close> when it is absent.
\<close>

type_synonym response = "(string \<times> string) list"

text \<open>
  The client handle. \<open>files_create_execute\<close> is the remote call
  \<^verbatim>\<open>service.files().create(body=..., media_body=..., fields='id').execute()\<close>:
  from the request and the state of the store it either raises or returns a response, and
  leaves a new state. \<open>MediaFileUpload\<close> opens the local file to be sent and may raise
  as well. Either may raise any exception, an interrupt included.
\<close>

record 'st service =
  MediaFileUpload :: "string \<Rightarrow> exn + string"
  files_create_execute ::
    "file_metadata \<Rightarrow> string option \<Rightarrow> 'st \<Rightarrow> (exn + response) \<times> 'st"

text \<open>
  \<^verbatim>\<open>if parent_folder_id: file_metadata['parents'] = [parent_folder_id]\<close>: both
  \<^verbatim>\<open>None\<close> and the empty string are false.
\<close>

definition set_parents :: "string option \<Rightarrow> file_metadata \<Rightarrow> file_metadata" where
  "set_parents parent_folder_id file_metadata =
     (case parent_folder_id of
        None \<Rightarrow> file_metadata
      | Some p \<Rightarrow> if p = [] then file_metadata else file_metadata\<lparr>parents := Some [p]\<rparr>)"

text \<open>
  The built-in \<^verbatim>\<open>print\<close>: it writes a line to the terminal and may raise (a closed
  pipe, an interrupt). It acts on the same outside world as the remote calls, whose
  state is \<open>'st\<close>.
\<close>

type_synonym 'st printer = "string \<Rightarrow> 'st \<Rightarrow> exn option \<times> 'st"

text \<open>A string between single quotes, as the messages of the program show names.\<close>

definition quoted :: "string \<Rightarrow> string" where
  "quoted x = CHR 0x27 # x @ [CHR 0x27]"

text \<open>The three messages of the program that matter here.\<close>

definition error_creating :: "string \<Rightarrow> exn \<Rightarrow> string" where
  "error_creating folder_name e =
     ''Error creating folder '' @ quoted folder_name @ '': '' @ str_exn e"

definition error_uploading :: "string \<Rightarrow> exn \<Rightarrow> string" where
  "error_uploading file_path e =
     ''Error uploading file '' @ quoted file_path @ '': '' @ str_exn e"

definition failed_to_create :: "string \<Rightarrow> string" where
  "failed_to_create folder_name =
     ''Failed to create folder '' @ quoted folder_name @ ''. Skipping...''"

text \<open>
  \<^verbatim>\<open>create_folder\<close>: \<open>create_folder_try\<close> is the body of the \<^verbatim>\<open>try\<close> block, which
  either raises (\<open>Inl\<close>) or returns. \<open>create_folder\<close> adds the handler
  \<^verbatim>\<open>except Exception as e\<close>: an exception that is an instance of \<^verbatim>\<open>Exception\<close> is
  caught, the message is printed and \<^verbatim>\<open>None\<close> is returned, unless printing raises,
  which leaves the function; any other exception is not caught and leaves the function.
\<close>

definition create_folder_try ::
  "'st service \<Rightarrow> string \<Rightarrow> string option \<Rightarrow> 'st \<Rightarrow> (exn + string option) \<times> 'st" where
  "create_folder_try service folder_name parent_folder_id s =
     (let file_metadata =
            \<lparr>name = folder_name,
             mimeType = Some ''application/vnd.google-apps.folder'',
             parents = None\<rparr>;
          file_metadata = set_parents parent_folder_id file_metadata
      in case files_create_execute service file_metadata None s of
           (Inl e, s') \<Rightarrow> (Inl e, s')
         | (Inr folder, s') \<Rightarrow> (Inr (map_of folder ''id''), s'))"

definition create_folder ::
  "'st printer \<Rightarrow> 'st service \<Rightarrow> string \<Rightarrow> string option \<Rightarrow> 'st
    \<Rightarrow> (exn + string option) \<times> 'st" where
  "create_folder print service folder_name parent_folder_id s =
     (case create_folder_try service folder_name parent_folder_id s of
        (Inr folder_id, s') \<Rightarrow> (Inr folder_id, s')
      | (Inl e, s') \<Rightarrow>
          if is_Exception e
          then (case print (error_creating folder_name e) s' of
                  (Some e', s'') \<Rightarrow> (Inl e', s'')
                | (None, s'') \<Rightarrow> (Inr None, s''))
          else (Inl e, s'))"

text \<open>\<^verbatim>\<open>upload_file\<close>, in the same two layers.\<close>

definition upload_file_try ::
  "'st service \<Rightarrow> string \<Rightarrow> string option \<Rightarrow> 'st \<Rightarrow> (exn + string option) \<times> 'st" where
  "upload_file_try service file_path parent_folder_id s =
     (let file_name = basename file_path;
          file_metadata = \<lparr>name = file_name, mimeType = None, parents = None\<rparr>;
          file_metadata = set_parents parent_folder_id file_metadata
      in case MediaFileUpload service file_path of
           Inl e \<Rightarrow> (Inl e, s)
         | Inr media \<Rightarrow>
             (case files_create_execute service file_metadata (Some media) s of
                (Inl e, s') \<Rightarrow> (Inl e, s')
              | (Inr file, s') \<Rightarrow> (Inr (map_of file ''id''), s')))"

definition upload_file ::
  "'st printer \<Rightarrow> 'st service \<Rightarrow> string \<Rightarrow> string option \<Rightarrow> 'st
    \<Rightarrow> (exn + string option) \<times> 'st" where
  "upload_file print service file_path parent_folder_id s =
     (case upload_file_try service file_path parent_folder_id s of
        (Inr file_id, s') \<Rightarrow> (Inr file_id, s')
      | (Inl e, s') \<Rightarrow>
          if is_Exception e
          then (case print (error_uploading file_path e) s' of
                  (Some e', s'') \<Rightarrow> (Inl e', s'')
                | (None, s'') \<Rightarrow> (Inr None, s''))
          else (Inl e, s'))"

subsection \<open>The mirror driver\<close>

text \<open>
  What the driver does to the remote store is the sequence of its calls to the two
  wrappers. Each call that returned is recorded with its arguments and with the value
  it returned. A call that raises ends the run: the exception is the outcome of the
  run, and the calls recorded are those made before.
\<close>

datatype call =
    CreateFolder string "string option" "string option"
  | UploadFile string "string option" "string option"

text \<open>
  The inner loop \<^verbatim>\<open>for folder_name in folder_names\<close>. It leaves in one of three
  ways: an exception, the \<^verbatim>\<open>return\<close> taken when a folder was not created (after the
  message of that branch has been printed), or the end of the list, with the value of
  \<^verbatim>\<open>current_folder_id\<close>.
\<close>

datatype loop_exit = Return | Fallthrough "string option"

fun create_folders ::
  "'st printer \<Rightarrow> 'st service \<Rightarrow> string list \<Rightarrow> string option \<Rightarrow> 'st
    \<Rightarrow> (exn + loop_exit) \<times> 'st \<times> call list" where
  "create_folders print service [] current_folder_id s =
     (Inr (Fallthrough current_folder_id), s, [])"
| "create_folders print service (folder_name # folder_names) current_folder_id s =
     (case create_folder print service folder_name current_folder_id s of
        (Inl e, s') \<Rightarrow> (Inl e, s', [])
      | (Inr None, s') \<Rightarrow>
          (case print (failed_to_create folder_name) s' of
             (Some e, s'') \<Rightarrow> (Inl e, s'', [CreateFolder folder_name current_folder_id None])
           | (None, s'') \<Rightarrow> (Inr Return, s'', [CreateFolder folder_name current_folder_id None]))
      | (Inr (Some folder_id), s') \<Rightarrow>
          (case create_folders print service folder_names (Some folder_id) s' of
             (r, s'', log) \<Rightarrow>
               (r, s'', CreateFolder folder_name current_folder_id (Some folder_id) # log)))"

text \<open>The loop \<^verbatim>\<open>for file_name in files\<close>; the value of \<^verbatim>\<open>upload_file\<close> is dropped.\<close>

fun upload_files ::
  "'st printer \<Rightarrow> 'st service \<Rightarrow> string \<Rightarrow> string list \<Rightarrow> string option \<Rightarrow> 'st
    \<Rightarrow> (exn + unit) \<times> 'st \<times> call list" where
  "upload_files print service root [] current_folder_id s = (Inr (), s, [])"
| "upload_files print service root (file_name # files) current_folder_id s =
     (let file_path = path_join root [file_name]
      in case upload_file print service file_path current_folder_id s of
           (Inl e, s') \<Rightarrow> (Inl e, s', [])
         | (Inr file_id, s') \<Rightarrow>
             (case upload_files print service root files current_folder_id s' of
                (r, s'', log) \<Rightarrow> (r, s'', UploadFile file_path current_folder_id file_id # log)))"

text \<open>
  The outer loop over the triples of \<^verbatim>\<open>os.walk\<close>. The \<^verbatim>\<open>return\<close> of the inner
  loop leaves the function, so the remaining triples are dropped.
\<close>

fun upload_entries ::
  "exn + string \<Rightarrow> 'st printer \<Rightarrow> 'st service \<Rightarrow> string \<Rightarrow> string option
    \<Rightarrow> (string \<times> string list \<times> string list) list \<Rightarrow> 'st
    \<Rightarrow> (exn + unit) \<times> 'st \<times> call list" where
  "upload_entries getcwd print service local_directory parent_folder_id [] s = (Inr (), s, [])"
| "upload_entries getcwd print service local_directory parent_folder_id
     ((root, dirs, files) # rest) s =
     (case relpath getcwd root local_directory of
        Inl e \<Rightarrow> (Inl e, s, [])
      | Inr relative_path \<Rightarrow>
          (case (if relative_path \<noteq> ''.''
                 then create_folders print service (split_sep relative_path) parent_folder_id s
                 else (Inr (Fallthrough parent_folder_id), s, [])) of
             (Inl e, s1, log1) \<Rightarrow> (Inl e, s1, log1)
           | (Inr Return, s1, log1) \<Rightarrow> (Inr (), s1, log1)
           | (Inr (Fallthrough current_folder_id), s1, log1) \<Rightarrow>
               (case upload_files print service root files current_folder_id s1 of
                  (Inl e, s2, log2) \<Rightarrow> (Inl e, s2, log1 @ log2)
                | (Inr u, s2, log2) \<Rightarrow>
                    (case upload_entries getcwd print service local_directory parent_folder_id
                            rest s2 of
                       (r, s3, log3) \<Rightarrow> (r, s3, log1 @ log2 @ log3)))))"

text \<open>
  \<^verbatim>\<open>upload_directory(service, local_directory, parent_folder_id)\<close>, run in a process
  whose \<^verbatim>\<open>os.getcwd()\<close> and \<^verbatim>\<open>print\<close> behave as \<open>getcwd\<close> and \<open>print\<close>, on a
  machine where \<open>local_directory\<close> holds the tree \<open>d\<close>, with the outside world in state
  \<open>s\<close>. The result is the exception or the normal return, the final state and the
  calls made.
\<close>

definition upload_directory ::
  "exn + string \<Rightarrow> 'st printer \<Rightarrow> dir \<Rightarrow> 'st service \<Rightarrow> string \<Rightarrow> string option \<Rightarrow> 'st
    \<Rightarrow> (exn + unit) \<times> 'st \<times> call list" where
  "upload_directory getcwd print d service local_directory parent_folder_id s =
     upload_entries getcwd print service local_directory parent_folder_id
       (os_walk local_directory d) s"

definition calls ::
  "(exn + unit) \<times> 'st \<times> call list \<Rightarrow> call list" where
  "calls r = snd (snd r)"

text \<open>
  The path decomposition of the driver (the lines that compute \<^verbatim>\<open>relative_path\<close> and
  \<^verbatim>\<open>folder_names\<close>): the names of the folders to create for a visited directory, none
  for the mirror root.
\<close>

definition folder_names_of :: "exn + string \<Rightarrow> string \<Rightarrow> string \<Rightarrow> exn + string list" where
  "folder_names_of getcwd root local_directory =
     (case relpath getcwd root local_directory of
        Inl e \<Rightarrow> Inl e
      | Inr relative_path \<Rightarrow>
          Inr (if relative_path \<noteq> ''.'' then split_sep relative_path else []))"

text \<open>
  A remote store for experiments: its state is a script of answers, one per remote
  call; \<open>Some i\<close> answers with the id \<open>i\<close>, \<open>None\<close> (or a script that ran out)
  raises an error of the HTTP client. \<open>quiet\<close> is a terminal that takes every message.
  \<open>interrupted\<close> is a remote store whose calls are cut by an interrupt from the keyboard.
\<close>

definition scripted :: "(string option) list service" where
  "scripted =
     \<lparr>MediaFileUpload = (\<lambda>file_path. Inr file_path),
      files_create_execute = (\<lambda>body media s.
        case s of
          [] \<Rightarrow> (Inl (Exception ''HttpError''), [])
        | None # s' \<Rightarrow> (Inl (Exception ''HttpError''), s')
        | Some i # s' \<Rightarrow> (Inr [(''id'', i)], s'))\<rparr>"

definition quiet :: "'st printer" where
  "quiet = (\<lambda>message s. (None, s))"


section \<open>Vocabulary of the statements\<close>

text \<open>
  The names a directory can have: not empty, without separator, and neither of the two
  special entries. A tree is well formed when all its directories have such names.
\<close>

definition valid_name :: "string \<Rightarrow> bool" where
  "valid_name n = (n \<noteq> [] \<and> sep \<notin> set n \<and> n \<noteq> ''.'' \<and> n \<noteq> ''..'')"

fun wf_dir :: "dir \<Rightarrow> bool" where
  "wf_dir (Dir files subdirs) =
     list_all (\<lambda>(dirname, d). valid_name dirname \<and> wf_dir d) subdirs"

text \<open>
  The directories of a tree in the order of the walk, each with the names that lead to
  it from the top (none for the top itself) and with its files.
\<close>

fun dirs_below :: "string list \<Rightarrow> dir \<Rightarrow> (string list \<times> string list) list" where
  "dirs_below segs (Dir files subdirs) =
     (segs, files) # concat (map (\<lambda>(dirname, d). dirs_below (segs @ [dirname]) d) subdirs)"

definition tree_dirs :: "dir \<Rightarrow> (string list \<times> string list) list" where
  "tree_dirs d = dirs_below [] d"

text \<open>
  In the working directory \<open>cwd\<close>: the path that \<^verbatim>\<open>abspath\<close> normalises, the
  components of the absolute path as \<^verbatim>\<open>relpath\<close> computes them, and what it means
  for a path to lie at or below another: its components begin with those of the other.
\<close>

definition full_path :: "string \<Rightarrow> string \<Rightarrow> string" where
  "full_path cwd p = (if isabs p then p else join_step cwd p)"

definition abs_comps :: "string \<Rightarrow> string \<Rightarrow> string list" where
  "abs_comps cwd p = filter (\<lambda>x. x \<noteq> []) (split_sep (normpath (full_path cwd p)))"

definition below :: "string \<Rightarrow> string \<Rightarrow> string \<Rightarrow> bool" where
  "below cwd path start =
     (take (length (abs_comps cwd start)) (abs_comps cwd path) = abs_comps cwd start)"

text \<open>
  The request each wrapper sends, and the remote part of each wrapper: what its
  \<^verbatim>\<open>try\<close> block does before it picks the id out of the response.
\<close>

definition folder_request :: "string \<Rightarrow> string option \<Rightarrow> file_metadata" where
  "folder_request folder_name parent_folder_id =
     set_parents parent_folder_id
       \<lparr>name = folder_name,
        mimeType = Some ''application/vnd.google-apps.folder'',
        parents = None\<rparr>"

definition file_request :: "string \<Rightarrow> string option \<Rightarrow> file_metadata" where
  "file_request file_path parent_folder_id =
     set_parents parent_folder_id
       \<lparr>name = basename file_path, mimeType = None, parents = None\<rparr>"

definition remote_create ::
  "'st service \<Rightarrow> string \<Rightarrow> string option \<Rightarrow> 'st \<Rightarrow> (exn + response) \<times> 'st" where
  "remote_create service folder_name parent_folder_id s =
     files_create_execute service (folder_request folder_name parent_folder_id) None s"

definition remote_upload ::
  "'st service \<Rightarrow> string \<Rightarrow> string option \<Rightarrow> 'st \<Rightarrow> (exn + response) \<times> 'st" where
  "remote_upload service file_path parent_folder_id s =
     (case MediaFileUpload service file_path of
        Inl e \<Rightarrow> (Inl e, s)
      | Inr media \<Rightarrow>
          files_create_execute service (file_request file_path parent_folder_id) (Some media) s)"

text \<open>
  A remote store that raises nothing but instances of \<^verbatim>\<open>Exception\<close>, and a terminal
  that never raises.
\<close>

definition only_Exceptions :: "'st service \<Rightarrow> bool" where
  "only_Exceptions service =
     ((\<forall>file_path e. MediaFileUpload service file_path = Inl e \<longrightarrow> is_Exception e)
      \<and> (\<forall>body media s e s'.
            files_create_execute service body media s = (Inl e, s') \<longrightarrow> is_Exception e))"

definition never_raises :: "'st printer \<Rightarrow> bool" where
  "never_raises print = (\<forall>message s. fst (print message s) = None)"

text \<open>
  A resolution chain: the successful creations of the folders \<open>names\<close>, the first under
  \<open>parent\<close> and each next one under the id returned for the one before. \<open>resolved_id\<close>
  is the id the chain ends with: the last id, or \<open>parent\<close> itself for the empty chain.
\<close>

fun chain :: "string option \<Rightarrow> string list \<Rightarrow> string list \<Rightarrow> call list" where
  "chain parent (n # ns) (i # ids) = CreateFolder n parent (Some i) # chain (Some i) ns ids"
| "chain parent _ _ = []"

fun resolved_id :: "string option \<Rightarrow> string list \<Rightarrow> string option" where
  "resolved_id parent [] = parent"
| "resolved_id parent (i # ids) = resolved_id (Some i) ids"

text \<open>The uploads of the files of one directory into one folder, with their results.\<close>

definition uploads ::
  "string \<Rightarrow> string option \<Rightarrow> string list \<Rightarrow> string option list \<Rightarrow> call list" where
  "uploads root parent files results =
     map (\<lambda>(file_name, r). UploadFile (path_join root [file_name]) parent r) (zip files results)"

fun is_upload :: "call \<Rightarrow> bool" where
  "is_upload (UploadFile file_path parent r) = True"
| "is_upload (CreateFolder folder_name parent r) = False"

fun failed_create :: "call \<Rightarrow> bool" where
  "failed_create (CreateFolder folder_name parent None) = True"
| "failed_create _ = False"

fun call_target :: "call \<Rightarrow> string" where
  "call_target (CreateFolder folder_name parent r) = folder_name"
| "call_target (UploadFile file_path parent r) = file_path"

fun call_result :: "call \<Rightarrow> string option" where
  "call_result (CreateFolder folder_name parent r) = r"
| "call_result (UploadFile file_path parent r) = r"

text \<open>The paths of the files of a directory, as the driver passes them to \<^verbatim>\<open>upload_file\<close>.\<close>

definition dir_paths :: "string \<Rightarrow> string list \<times> string list \<Rightarrow> string list" where
  "dir_paths local_directory = (\<lambda>(segs, files).
     map (\<lambda>file_name. path_join (path_join local_directory segs) [file_name]) files)"

text \<open>
  The shape of every run of the driver on a list of directories, as its outcome and its
  sequence of calls. A directory whose chain resolves and whose files are all handed to
  \<^verbatim>\<open>upload_file\<close> contributes the chain and then the uploads into the resolved folder,
  and the run goes on. A directory whose chain breaks contributes the part of the chain
  that succeeded and the failed creation, and nothing follows; the outcome is the normal
  return, or the exception of the message printed then. When a wrapper (or the path
  decomposition) raises, the run ends with that exception after the calls made so far
  for the directory: a part of its chain, or the whole chain and the uploads of some of
  its files.
\<close>

inductive mirror_log ::
  "string \<Rightarrow> string option \<Rightarrow> (string list \<times> string list) list \<Rightarrow> exn + unit
    \<Rightarrow> call list \<Rightarrow> bool"
  for local_directory parent_folder_id where
  finished: "mirror_log local_directory parent_folder_id [] (Inr ()) []"
| resolved:
    "length ids = length segs \<Longrightarrow> length results = length files \<Longrightarrow>
     mirror_log local_directory parent_folder_id rest outcome log \<Longrightarrow>
     mirror_log local_directory parent_folder_id ((segs, files) # rest) outcome
       (chain parent_folder_id segs ids
          @ uploads (path_join local_directory segs) (resolved_id parent_folder_id ids)
              files results
          @ log)"
| aborted:
    "k < length segs \<Longrightarrow> length ids = k \<Longrightarrow>
     mirror_log local_directory parent_folder_id ((segs, files) # rest) outcome
       (chain parent_folder_id (take k segs) ids
          @ [CreateFolder (segs ! k) (resolved_id parent_folder_id ids) None])"
| raised:
    "length ids \<le> length segs \<Longrightarrow> length results \<le> length files \<Longrightarrow>
     (length ids < length segs \<longrightarrow> results = []) \<Longrightarrow>
     mirror_log local_directory parent_folder_id ((segs, files) # rest) (Inl e)
       (chain parent_folder_id segs ids
          @ uploads (path_join local_directory segs) (resolved_id parent_folder_id ids)
              files results)"

section \<open>Splitting and joining paths\<close>

text \<open>
  The aim of this section is \<open>relpath_descendant\<close>: for a path obtained from a
  non-empty start by joining valid names, \<^verbatim>\<open>relpath\<close> gives these names back, joined
  by the separator (or \<^verbatim>\<open>.\<close> when there are none). On the way, \<^verbatim>\<open>split\<close> undoes
  \<^verbatim>\<open>join\<close>, and \<^verbatim>\<open>normpath\<close> pushes a valid name on its stack of components.
\<close>


lemma split_sep_not_Nil [simp]: "split_sep s \<noteq> []"
  by (induction s) auto

lemma split_sep_no_sep: "sep \<notin> set n \<Longrightarrow> split_sep n = [n]"
  by (induction n) auto

lemma split_sep_append_sep: "split_sep (a @ sep # b) = split_sep a @ split_sep b"
  by (induction a) (auto simp: hd_append)

lemma split_sep_comps_no_sep: "c \<in> set (split_sep s) \<Longrightarrow> sep \<notin> set c"
proof (induction s arbitrary: c)
  case Nil
  then show ?case by simp
next
  case (Cons a s)
  then show ?case
    by (cases "split_sep s") (auto split: if_splits)
qed

lemma split_sep_join:
  "comps \<noteq> [] \<Longrightarrow> \<forall>c \<in> set comps. sep \<notin> set c \<Longrightarrow> split_sep (sep_join comps) = comps"
proof (induction comps rule: sep_join.induct)
  case 1
  then show ?case by simp
next
  case (2 x)
  then show ?case by (simp add: split_sep_no_sep)
next
  case (3 x y ys)
  then show ?case by (simp add: split_sep_append_sep split_sep_no_sep)
qed

lemma filter_split_sep_join:
  "\<forall>c \<in> set comps. c \<noteq> [] \<and> sep \<notin> set c \<Longrightarrow>
   filter (\<lambda>x. x \<noteq> []) (split_sep (sep_join comps)) = comps"
proof (cases "comps = []")
  case True
  then show ?thesis by simp
next
  case False
  assume a: "\<forall>c \<in> set comps. c \<noteq> [] \<and> sep \<notin> set c"
  with False have "split_sep (sep_join comps) = comps"
    by (simp add: split_sep_join)
  moreover from a have "filter (\<lambda>x. x \<noteq> []) comps = comps"
    by (simp add: filter_id_conv)
  ultimately show ?thesis by simp
qed

lemma norm_step_clean:
  "\<forall>c \<in> set acc. c \<noteq> [] \<and> sep \<notin> set c \<Longrightarrow> sep \<notin> set x \<Longrightarrow>
   \<forall>c \<in> set (norm_step k acc x). c \<noteq> [] \<and> sep \<notin> set c"
  unfolding norm_step_def by (auto dest: in_set_butlastD simp del: One_nat_def)

lemma foldl_norm_step_clean:
  "\<forall>c \<in> set acc. c \<noteq> [] \<and> sep \<notin> set c \<Longrightarrow> \<forall>x \<in> set xs. sep \<notin> set x \<Longrightarrow>
   \<forall>c \<in> set (foldl (norm_step k) acc xs). c \<noteq> [] \<and> sep \<notin> set c"
proof (induction xs arbitrary: acc)
  case Nil
  then show ?case by simp
next
  case (Cons x xs)
  have x: "sep \<notin> set x" and xs: "\<forall>x \<in> set xs. sep \<notin> set x"
    using Cons.prems(2) by simp_all
  have "\<forall>c \<in> set (norm_step k acc x). c \<noteq> [] \<and> sep \<notin> set c"
    using Cons.prems(1) x by (rule norm_step_clean)
  then have "\<forall>c \<in> set (foldl (norm_step k) (norm_step k acc x) xs). c \<noteq> [] \<and> sep \<notin> set c"
    using xs by (rule Cons.IH)
  then show ?case by simp
qed

lemma valid_name_hd: "valid_name n \<Longrightarrow> hd n \<noteq> sep"
  unfolding valid_name_def using hd_in_set [of n] by metis

lemma valid_name_last: "valid_name n \<Longrightarrow> last n \<noteq> sep"
  unfolding valid_name_def using last_in_set [of n] by metis

lemma valid_name_not_Nil: "valid_name n \<Longrightarrow> n \<noteq> []"
  by (simp add: valid_name_def)

lemma valid_name_no_sep: "valid_name n \<Longrightarrow> sep \<notin> set n"
  by (simp add: valid_name_def)

lemma norm_step_valid: "valid_name n \<Longrightarrow> norm_step k acc n = acc @ [n]"
  by (simp add: norm_step_def valid_name_def)

lemma norm_step_empty [simp]: "norm_step k acc [] = acc"
  by (simp add: norm_step_def)

lemma split_sep_snoc_sep: "split_sep (q @ [sep]) = split_sep q @ [[]]"
  using split_sep_append_sep [of q "[]"] by simp

lemma stack_join_step:
  assumes "q \<noteq> []" "valid_name n"
  shows "foldl (norm_step k) [] (split_sep (join_step q n))
       = foldl (norm_step k) [] (split_sep q) @ [n]"
proof -
  from assms have n: "n \<noteq> []" "hd n \<noteq> sep" "sep \<notin> set n"
    by (simp_all add: valid_name_not_Nil valid_name_hd valid_name_no_sep)
  show ?thesis
  proof (cases "last q = sep")
    case True
    with assms obtain q' where q: "q = q' @ [sep]"
      by (metis append_butlast_last_id)
    have "join_step q n = q' @ sep # n"
      using n by (simp add: join_step_def q)
    then show ?thesis
      using n assms by (simp add: q split_sep_append_sep split_sep_snoc_sep split_sep_no_sep norm_step_valid)
  next
    case False
    then have "join_step q n = q @ sep # n"
      using n assms by (simp add: join_step_def)
    then show ?thesis
      using n assms by (simp add: split_sep_append_sep split_sep_no_sep norm_step_valid)
  qed
qed


lemma norm_step_nonzero: "k \<noteq> 0 \<Longrightarrow> norm_step k = norm_step (Suc 0)"
  by (intro ext) (simp add: norm_step_def)

lemma initial_slashes_abs: "isabs q \<Longrightarrow> initial_slashes_of q = 1 \<or> initial_slashes_of q = 2"
  by (simp add: initial_slashes_of_def)

lemma split_sep_sep_Cons: "split_sep (sep # s) = [] # split_sep s"
  by simp

lemma normpath_abs_comps:
  assumes "isabs q"
  shows "filter (\<lambda>x. x \<noteq> []) (split_sep (normpath q)) = foldl (norm_step (Suc 0)) [] (split_sep q)"
proof -
  define k where "k = initial_slashes_of q"
  define comps where "comps = foldl (norm_step k) [] (split_sep q)"
  from assms have k: "k = 1 \<or> k = 2"
    unfolding k_def by (rule initial_slashes_abs)
  then have "k \<noteq> 0" by auto
  then have "norm_step k = norm_step (Suc 0)" by (rule norm_step_nonzero)
  then have comps_eq: "comps = foldl (norm_step (Suc 0)) [] (split_sep q)"
    by (simp only: comps_def)
  have "\<forall>c \<in> set ([]::string list). c \<noteq> [] \<and> sep \<notin> set c" by simp
  moreover have "\<forall>x \<in> set (split_sep q). sep \<notin> set x"
    by (simp add: split_sep_comps_no_sep)
  ultimately have clean: "\<forall>c \<in> set comps. c \<noteq> [] \<and> sep \<notin> set c"
    unfolding comps_def by (rule foldl_norm_step_clean)
  have fc: "filter (\<lambda>x. x \<noteq> []) (split_sep (sep_join comps)) = comps"
    using clean by (rule filter_split_sep_join)
  from assms have "q \<noteq> []" by (simp add: isabs_def)
  then have "normpath q =
      (if replicate k sep @ sep_join comps = [] then ''.'' else replicate k sep @ sep_join comps)"
    unfolding normpath_def k_def comps_def Let_def by simp
  moreover have "replicate k sep @ sep_join comps \<noteq> []"
    using \<open>k \<noteq> 0\<close> by simp
  ultimately have np: "normpath q = replicate k sep @ sep_join comps"
    by simp
  have rep: "replicate k sep = [sep] \<or> replicate k sep = [sep, sep]"
    using k by (auto simp: numeral_2_eq_2)
  have "filter (\<lambda>x. x \<noteq> []) (split_sep (replicate k sep @ sep_join comps)) = comps"
    using rep
  proof
    assume "replicate k sep = [sep]"
    then show ?thesis by (simp only: append_Cons append_Nil split_sep_sep_Cons filter.simps fc) simp
  next
    assume "replicate k sep = [sep, sep]"
    then show ?thesis by (simp only: append_Cons append_Nil split_sep_sep_Cons filter.simps fc) simp
  qed
  then show ?thesis
    by (simp only: np comps_eq)
qed

lemma join_step_valid:
  "p \<noteq> [] \<Longrightarrow> valid_name n \<Longrightarrow>
   join_step p n = (if last p = sep then p @ n else p @ sep # n)"
  by (simp add: join_step_def valid_name_hd)

lemma hd_join_step: "p \<noteq> [] \<Longrightarrow> valid_name n \<Longrightarrow> hd (join_step p n) = hd p"
  by (simp add: join_step_valid)

lemma join_step_not_Nil: "p \<noteq> [] \<Longrightarrow> valid_name n \<Longrightarrow> join_step p n \<noteq> []"
  by (simp add: join_step_valid)

lemma isabs_join_step: "p \<noteq> [] \<Longrightarrow> valid_name n \<Longrightarrow> isabs (join_step p n) = isabs p"
  by (simp add: hd_join_step join_step_not_Nil isabs_def)

lemma join_step_relative:
  "cwd \<noteq> [] \<Longrightarrow> p \<noteq> [] \<Longrightarrow> hd p \<noteq> sep \<Longrightarrow>
   join_step cwd p = (if last cwd = sep then cwd @ p else cwd @ sep # p)"
  by (simp add: join_step_def)

lemma full_path_join_step:
  assumes "isabs cwd" "p \<noteq> []" "valid_name n"
  shows "full_path cwd (join_step p n) = join_step (full_path cwd p) n"
proof (cases "isabs p")
  case True
  with assms show ?thesis by (simp add: full_path_def isabs_join_step)
next
  case False
  from assms(1) have cwd: "cwd \<noteq> []" by (simp add: isabs_def)
  from False assms(2) have hp: "hd p \<noteq> sep" by (simp add: isabs_def)
  have pn_ne: "join_step p n \<noteq> []"
    using assms(2,3) by (rule join_step_not_Nil)
  have pn_hd: "hd (join_step p n) \<noteq> sep"
    using assms(2,3) hp by (simp add: hd_join_step)
  have pn: "join_step p n = (if last p = sep then p @ n else p @ sep # n)"
    using assms(2,3) by (rule join_step_valid)
  have cp: "join_step cwd p = (if last cwd = sep then cwd @ p else cwd @ sep # p)"
    using cwd assms(2) hp by (rule join_step_relative)
  have cp_ne: "join_step cwd p \<noteq> []" and cp_last: "last (join_step cwd p) = last p"
    using assms(2) by (simp_all add: cp)
  have lhs: "join_step cwd (join_step p n)
      = (if last cwd = sep then cwd @ join_step p n else cwd @ sep # join_step p n)"
    using cwd pn_ne pn_hd by (rule join_step_relative)
  have rhs: "join_step (join_step cwd p) n
      = (if last p = sep then join_step cwd p @ n else join_step cwd p @ sep # n)"
    using join_step_valid [OF cp_ne assms(3)] by (simp only: cp_last)
  have "join_step cwd (join_step p n) = join_step (join_step cwd p) n"
    unfolding lhs rhs by (simp add: pn cp)
  moreover have "\<not> isabs (join_step p n)"
    using False assms(2,3) by (simp add: isabs_join_step)
  ultimately show ?thesis
    using False by (simp add: full_path_def)
qed

lemma isabs_full_path: "isabs cwd \<Longrightarrow> isabs (full_path cwd p)"
  by (auto simp: full_path_def join_step_def isabs_def)

lemma full_path_not_Nil: "isabs cwd \<Longrightarrow> full_path cwd p \<noteq> []"
  using isabs_full_path [of cwd p] by (auto simp: isabs_def)

lemma abspath_Inr: "abspath (Inr cwd) p = Inr (normpath (full_path cwd p))"
  by (simp add: abspath_def full_path_def path_join_def)

lemma abs_comps_stack:
  "isabs cwd \<Longrightarrow> abs_comps cwd p = foldl (norm_step (Suc 0)) [] (split_sep (full_path cwd p))"
proof -
  assume "isabs cwd"
  then have "isabs (full_path cwd p)" by (rule isabs_full_path)
  then have "filter (\<lambda>x. x \<noteq> []) (split_sep (normpath (full_path cwd p)))
      = foldl (norm_step (Suc 0)) [] (split_sep (full_path cwd p))"
    by (rule normpath_abs_comps)
  then show ?thesis by (simp add: abs_comps_def)
qed

lemma abs_comps_join_step:
  assumes "isabs cwd" "p \<noteq> []" "valid_name n"
  shows "abs_comps cwd (join_step p n) = abs_comps cwd p @ [n]"
  using assms
  by (simp add: abs_comps_stack full_path_join_step stack_join_step full_path_not_Nil)

lemma path_join_snoc: "path_join a (ns @ [n]) = join_step (path_join a ns) n"
  by (simp add: path_join_def)

lemma path_join_not_Nil:
  "a \<noteq> [] \<Longrightarrow> \<forall>n \<in> set ns. valid_name n \<Longrightarrow> path_join a ns \<noteq> []"
proof (induction ns rule: rev_induct)
  case Nil
  then show ?case by (simp add: path_join_def)
next
  case (snoc n ns)
  then have "path_join a ns \<noteq> []" "valid_name n" by simp_all
  then show ?case
    unfolding path_join_snoc by (rule join_step_not_Nil)
qed

lemma abs_comps_path_join:
  assumes "isabs cwd" "a \<noteq> []"
  shows "\<forall>n \<in> set ns. valid_name n \<Longrightarrow> abs_comps cwd (path_join a ns) = abs_comps cwd a @ ns"
proof (induction ns rule: rev_induct)
  case Nil
  then show ?case by (simp add: path_join_def)
next
  case (snoc n ns)
  then have ns: "\<forall>n \<in> set ns. valid_name n" and n: "valid_name n" by simp_all
  have ne: "path_join a ns \<noteq> []"
    using assms(2) ns by (rule path_join_not_Nil)
  have "abs_comps cwd (path_join a ns) = abs_comps cwd a @ ns"
    using ns by (rule snoc.IH)
  then show ?case
    by (simp add: path_join_snoc abs_comps_join_step [OF assms(1) ne n])
qed

lemma commonprefix_append [simp]: "commonprefix xs (xs @ ys) = xs"
  by (induction xs) simp_all

lemma sep_join_Cons: "sep_join (x # ns) = x @ concat (map (\<lambda>n. sep # n) ns)"
  by (induction ns arbitrary: x) auto

lemma foldl_join_step_valid:
  "a \<noteq> [] \<Longrightarrow> last a \<noteq> sep \<Longrightarrow> \<forall>n \<in> set ns. valid_name n \<Longrightarrow>
   foldl join_step a ns = a @ concat (map (\<lambda>n. sep # n) ns)"
proof (induction ns arbitrary: a)
  case Nil
  then show ?case by simp
next
  case (Cons n ns)
  then have n: "valid_name n" and ns: "\<forall>n \<in> set ns. valid_name n" by simp_all
  have js: "join_step a n = a @ sep # n"
    using Cons.prems(1,2) n by (simp add: join_step_valid)
  have "n \<noteq> []" "last n \<noteq> sep"
    using n by (simp_all add: valid_name_not_Nil valid_name_last)
  then have "last (a @ sep # n) \<noteq> sep" by simp
  moreover have "a @ sep # n \<noteq> []" by simp
  ultimately have "foldl join_step (a @ sep # n) ns = (a @ sep # n) @ concat (map (\<lambda>n. sep # n) ns)"
    using ns by (intro Cons.IH)
  then show ?case by (simp add: js)
qed

lemma path_join_hd_tl:
  assumes "segs \<noteq> []" "\<forall>n \<in> set segs. valid_name n"
  shows "path_join (hd segs) (tl segs) = sep_join segs"
proof -
  from assms obtain x ns where segs: "segs = x # ns" by (cases segs) auto
  with assms have x: "valid_name x" and ns: "\<forall>n \<in> set ns. valid_name n" by simp_all
  from x have "x \<noteq> []" "last x \<noteq> sep"
    by (simp_all add: valid_name_not_Nil valid_name_last)
  then have "foldl join_step x ns = x @ concat (map (\<lambda>n. sep # n) ns)"
    using ns by (rule foldl_join_step_valid)
  then show ?thesis by (simp add: segs path_join_def sep_join_Cons)
qed

lemma sep_join_not_dot:
  assumes "segs \<noteq> []" "\<forall>n \<in> set segs. valid_name n"
  shows "sep_join segs \<noteq> ''.''"
proof (cases segs)
  case Nil
  with assms show ?thesis by simp
next
  case (Cons x ns)
  show ?thesis
  proof (cases ns)
    case Nil
    with Cons assms show ?thesis by (simp add: valid_name_def)
  next
    case (Cons y ys)
    then have "sep \<in> set (sep_join segs)"
      using \<open>segs = x # ns\<close> by simp
    moreover have "sep \<notin> set ''.''" by (simp add: sep_def)
    ultimately show ?thesis by metis
  qed
qed

lemma relpath_Inr:
  "path \<noteq> [] \<Longrightarrow>
   relpath (Inr cwd) path start =
     (let start_list = abs_comps cwd start;
          path_list = abs_comps cwd path;
          i = length (commonprefix start_list path_list);
          rel_list = replicate (length start_list - i) ''..'' @ drop i path_list
      in if rel_list = [] then Inr ''.''
         else Inr (path_join (hd rel_list) (tl rel_list)))"
  by (simp add: relpath_def abspath_Inr abs_comps_def)

lemma relpath_descendant:
  assumes "isabs cwd" "a \<noteq> []" "\<forall>n \<in> set segs. valid_name n"
  shows "relpath (Inr cwd) (path_join a segs) a
           = Inr (if segs = [] then ''.'' else sep_join segs)"
proof -
  have ne: "path_join a segs \<noteq> []"
    using assms(2,3) by (rule path_join_not_Nil)
  have pl: "abs_comps cwd (path_join a segs) = abs_comps cwd a @ segs"
    using abs_comps_path_join [OF assms] .
  show ?thesis
    using assms(3) by (simp add: relpath_Inr [OF ne] pl Let_def path_join_hd_tl)
qed

lemma folder_names_of_descendant:
  assumes "isabs cwd" "a \<noteq> []" "\<forall>n \<in> set segs. valid_name n"
  shows "folder_names_of (Inr cwd) (path_join a segs) a = Inr segs"
proof (cases "segs = []")
  case True
  with assms show ?thesis
    by (simp add: folder_names_of_def relpath_descendant)
next
  case False
  have "\<forall>c \<in> set segs. sep \<notin> set c"
    using assms(3) by (simp add: valid_name_def)
  with False have "split_sep (sep_join segs) = segs"
    by (rule split_sep_join)
  then show ?thesis
    using False assms by (simp add: folder_names_of_def relpath_descendant sep_join_not_dot)
qed

section \<open>The walk and the directories of the tree\<close>

text \<open>
  The roots that \<^verbatim>\<open>os.walk\<close> yields are the top path joined with the names leading to
  each directory, and in a well-formed tree all these names are valid.
\<close>

lemma path_join_append: "path_join a (xs @ ys) = path_join (path_join a xs) ys"
  by (simp add: path_join_def)

lemma walk_dirs_below:
  "map (\<lambda>(root, dirs, files). (root, files)) (walk (path_join a segs) d)
     = map (\<lambda>(segs', files). (path_join a segs', files)) (dirs_below segs d)"
proof (induction segs d rule: dirs_below.induct)
  case (1 segs files subdirs)
  have "map (\<lambda>(root, dirs, files). (root, files))
          (concat (map (\<lambda>(dirname, d). walk (path_join (path_join a segs) [dirname]) d) subdirs))
      = map (\<lambda>(segs', files). (path_join a segs', files))
          (concat (map (\<lambda>(dirname, d). dirs_below (segs @ [dirname]) d) subdirs))"
    unfolding map_concat
    by (rule arg_cong [where f = concat]) (auto simp: path_join_append dest: 1)
  then show ?case by simp
qed

lemma dirs_below_valid:
  "wf_dir d \<Longrightarrow> \<forall>n \<in> set segs. valid_name n \<Longrightarrow>
   (segs', files) \<in> set (dirs_below segs d) \<Longrightarrow> \<forall>n \<in> set segs'. valid_name n"
proof (induction segs d arbitrary: segs' files rule: dirs_below.induct)
  case (1 segs fs subdirs)
  from "1.prems"(3) consider "segs' = segs"
    | dirname d where "(dirname, d) \<in> set subdirs" "(segs', files) \<in> set (dirs_below (segs @ [dirname]) d)"
    by auto
  then show ?case
  proof cases
    case 1
    with "1.prems"(2) show ?thesis by simp
  next
    case 2
    from "1.prems"(1) 2(1) have "valid_name dirname" "wf_dir d"
      by (auto simp: list_all_iff)
    with "1.prems"(2) have "\<forall>n \<in> set (segs @ [dirname]). valid_name n" by simp
    with 2 \<open>wf_dir d\<close> show ?thesis
      by (intro "1.IH" [of "(dirname, d)" dirname d segs' files]) auto
  qed
qed

section \<open>The calls of the driver\<close>

text \<open>
  The inner loop completes a chain, stops at a failed creation, or is cut by an
  exception; the loop over the files uploads every file unless an exception cuts it.
  Hence every run on a well-formed tree has the shape \<open>mirror_log\<close>.
\<close>

lemma chain_Nil_ids [simp]: "chain parent names [] = []"
  by (cases names) simp_all

lemma uploads_Nil [simp]: "uploads root parent [] results = []"
  by (simp add: uploads_def)

lemma uploads_no_results [simp]: "uploads root parent files [] = []"
  by (simp add: uploads_def)

lemma create_folders_log:
  "(\<exists>ids s'. length ids = length names \<and>
       create_folders print service names parent s
         = (Inr (Fallthrough (resolved_id parent ids)), s', chain parent names ids))
   \<or> (\<exists>k ids s' r. k < length names \<and> length ids = k \<and> (r = Inr Return \<or> (\<exists>e. r = Inl e)) \<and>
       create_folders print service names parent s
         = (r, s',
            chain parent (take k names) ids
              @ [CreateFolder (names ! k) (resolved_id parent ids) None]))
   \<or> (\<exists>ids e s'. length ids < length names \<and>
       create_folders print service names parent s = (Inl e, s', chain parent names ids))"
  (is "?A names parent s \<or> ?B names parent s \<or> ?C names parent s")
proof (induction names arbitrary: parent s)
  case Nil
  then show ?case by simp
next
  case (Cons n names)
  obtain r s1 where cf: "create_folder print service n parent s = (r, s1)"
    by (cases "create_folder print service n parent s") auto
  show ?case
  proof (cases r)
    case (Inl e)
    have "create_folders print service (n # names) parent s = (Inl e, s1, chain parent (n # names) [])"
      by (simp add: cf Inl)
    then have "?C (n # names) parent s"
      by (intro exI [of _ "[]"] exI [of _ e] exI [of _ s1]) simp
    then show ?thesis by blast
  next
    case (Inr v)
    show ?thesis
    proof (cases v)
      case None
      obtain p s2 where pr: "print (failed_to_create n) s1 = (p, s2)"
        by (cases "print (failed_to_create n) s1") auto
      define r' :: "exn + loop_exit" where "r' = (case p of Some e \<Rightarrow> Inl e | None \<Rightarrow> Inr Return)"
      have r': "r' = Inr Return \<or> (\<exists>e. r' = Inl e)"
        by (cases p) (simp_all add: r'_def)
      have "create_folders print service (n # names) parent s
          = (r', s2, chain parent (take 0 (n # names)) []
               @ [CreateFolder ((n # names) ! 0) (resolved_id parent []) None])"
        by (cases p) (simp_all add: cf Inr None pr r'_def)
      with r' have "?B (n # names) parent s"
        by (intro exI [of _ 0] exI [of _ "[]"] exI [of _ s2] exI [of _ r']) simp
      then show ?thesis by blast
    next
      case (Some i)
      from Cons.IH [of "Some i" s1] consider
        (a) "?A names (Some i) s1" | (b) "?B names (Some i) s1" | (c) "?C names (Some i) s1"
        by blast
      then show ?thesis
      proof cases
        case a
        then obtain ids s' where ids: "length ids = length names"
          and run: "create_folders print service names (Some i) s1
            = (Inr (Fallthrough (resolved_id (Some i) ids)), s', chain (Some i) names ids)"
          by blast
        have "create_folders print service (n # names) parent s
            = (Inr (Fallthrough (resolved_id parent (i # ids))), s', chain parent (n # names) (i # ids))"
          by (simp add: cf Inr Some run)
        moreover have "length (i # ids) = length (n # names)" using ids by simp
        ultimately have "?A (n # names) parent s" by blast
        then show ?thesis by blast
      next
        case b
        then obtain k ids s' r' where k: "k < length names" and ids: "length ids = k"
          and r': "r' = Inr Return \<or> (\<exists>e. r' = Inl e)"
          and run: "create_folders print service names (Some i) s1
            = (r', s', chain (Some i) (take k names) ids
                 @ [CreateFolder (names ! k) (resolved_id (Some i) ids) None])"
          by blast
        have "create_folders print service (n # names) parent s
            = (r', s', chain parent (take (Suc k) (n # names)) (i # ids)
                 @ [CreateFolder ((n # names) ! Suc k) (resolved_id parent (i # ids)) None])"
          by (simp add: cf Inr Some run)
        moreover have "Suc k < length (n # names)" "length (i # ids) = Suc k"
          using k ids by simp_all
        ultimately have "?B (n # names) parent s" using r' by blast
        then show ?thesis by blast
      next
        case c
        then obtain ids e s' where ids: "length ids < length names"
          and run: "create_folders print service names (Some i) s1 = (Inl e, s', chain (Some i) names ids)"
          by blast
        have "create_folders print service (n # names) parent s
            = (Inl e, s', chain parent (n # names) (i # ids))"
          by (simp add: cf Inr Some run)
        moreover have "length (i # ids) < length (n # names)" using ids by simp
        ultimately have "?C (n # names) parent s" by blast
        then show ?thesis by blast
      qed
    qed
  qed
qed

lemma upload_files_log:
  "(\<exists>results s'. length results = length files \<and>
      upload_files print service root files parent s
        = (Inr (), s', uploads root parent files results))
   \<or> (\<exists>results e s'. length results < length files \<and>
      upload_files print service root files parent s
        = (Inl e, s', uploads root parent files results))"
  (is "?A files s \<or> ?B files s")
proof (induction files arbitrary: s)
  case Nil
  then show ?case by (simp add: uploads_def)
next
  case (Cons f files)
  obtain r s1 where uf: "upload_file print service (path_join root [f]) parent s = (r, s1)"
    by (cases "upload_file print service (path_join root [f]) parent s") auto
  show ?case
  proof (cases r)
    case (Inl e)
    have "upload_files print service root (f # files) parent s
        = (Inl e, s1, uploads root parent (f # files) [])"
      by (simp add: uf Inl)
    then have "?B (f # files) s"
      by (intro exI [of _ "[]"] exI [of _ e] exI [of _ s1]) simp
    then show ?thesis by blast
  next
    case (Inr v)
    from Cons.IH [of s1] show ?thesis
    proof
      assume "?A files s1"
      then obtain results s' where len: "length results = length files"
        and run: "upload_files print service root files parent s1
          = (Inr (), s', uploads root parent files results)"
        by blast
      have "upload_files print service root (f # files) parent s
          = (Inr (), s', uploads root parent (f # files) (v # results))"
        by (simp add: uf Inr run uploads_def)
      moreover have "length (v # results) = length (f # files)" using len by simp
      ultimately have "?A (f # files) s" by blast
      then show ?thesis by blast
    next
      assume "?B files s1"
      then obtain results e s' where len: "length results < length files"
        and run: "upload_files print service root files parent s1
          = (Inl e, s', uploads root parent files results)"
        by blast
      have "upload_files print service root (f # files) parent s
          = (Inl e, s', uploads root parent (f # files) (v # results))"
        by (simp add: uf Inr run uploads_def)
      moreover have "length (v # results) < length (f # files)" using len by simp
      ultimately have "?B (f # files) s" by blast
      then show ?thesis by blast
    qed
  qed
qed


lemma resolve_descendant:
  assumes "isabs cwd" "a \<noteq> []" "\<forall>n \<in> set segs. valid_name n"
  shows "\<exists>rp. relpath (Inr cwd) (path_join a segs) a = Inr rp \<and>
     (if rp \<noteq> ''.'' then create_folders print service (split_sep rp) parent s
      else (Inr (Fallthrough parent), s, [])) = create_folders print service segs parent s"
proof (cases "segs = []")
  case True
  with assms show ?thesis by (simp add: relpath_descendant)
next
  case False
  have "\<forall>c \<in> set segs. sep \<notin> set c"
    using assms(3) by (simp add: valid_name_def)
  with False have "split_sep (sep_join segs) = segs"
    by (rule split_sep_join)
  moreover have "sep_join segs \<noteq> ''.''"
    using False assms(3) by (rule sep_join_not_dot)
  moreover have "relpath (Inr cwd) (path_join a segs) a = Inr (sep_join segs)"
    using False relpath_descendant [OF assms] by simp
  ultimately show ?thesis by simp
qed

lemma upload_entries_step:
  assumes "isabs cwd" "a \<noteq> []" "\<forall>n \<in> set segs. valid_name n"
  shows "upload_entries (Inr cwd) print service a parent ((path_join a segs, dirs, files) # rest) s =
     (case create_folders print service segs parent s of
        (Inl e, s1, log1) \<Rightarrow> (Inl e, s1, log1)
      | (Inr Return, s1, log1) \<Rightarrow> (Inr (), s1, log1)
      | (Inr (Fallthrough current_folder_id), s1, log1) \<Rightarrow>
          (case upload_files print service (path_join a segs) files current_folder_id s1 of
             (Inl e, s2, log2) \<Rightarrow> (Inl e, s2, log1 @ log2)
           | (Inr u, s2, log2) \<Rightarrow>
               (case upload_entries (Inr cwd) print service a parent rest s2 of
                  (r, s3, log3) \<Rightarrow> (r, s3, log1 @ log2 @ log3))))"
proof -
  from resolve_descendant [OF assms, of print service parent s] obtain rp where
    rp: "relpath (Inr cwd) (path_join a segs) a = Inr rp"
    and res: "(if rp \<noteq> ''.'' then create_folders print service (split_sep rp) parent s
      else (Inr (Fallthrough parent), s, [])) = create_folders print service segs parent s"
    by blast
  show ?thesis
    by (simp only: upload_entries.simps rp sum.case res)
qed

lemma upload_entries_mirror_log:
  assumes "isabs cwd" "a \<noteq> []"
  shows "map (\<lambda>(root, dirs, files). (root, files)) es
           = map (\<lambda>(segs, files). (path_join a segs, files)) ses \<Longrightarrow>
         \<forall>(segs, files) \<in> set ses. \<forall>n \<in> set segs. valid_name n \<Longrightarrow>
         \<exists>r s' log. upload_entries (Inr cwd) print service a parent es s = (r, s', log)
            \<and> mirror_log a parent ses r log"
proof (induction es arbitrary: ses s)
  case Nil
  then show ?case by (auto intro: mirror_log.finished)
next
  case (Cons e es)
  obtain root dirs files where e: "e = (root, dirs, files)" by (cases e)
  from Cons.prems(1) obtain segs ses' where ses: "ses = (segs, files) # ses'"
    and root: "root = path_join a segs"
    and rest: "map (\<lambda>(root, dirs, files). (root, files)) es
           = map (\<lambda>(segs, files). (path_join a segs, files)) ses'"
    by (cases ses) (auto simp: e)
  from Cons.prems(2) have valid: "\<forall>n \<in> set segs. valid_name n"
    and valid': "\<forall>(segs, files) \<in> set ses'. \<forall>n \<in> set segs. valid_name n"
    by (simp_all add: ses)
  note step = upload_entries_step [OF assms valid, of print service parent dirs files es s]
  from create_folders_log [of segs print service parent s] consider
    (fall) ids s1 where "length ids = length segs"
      "create_folders print service segs parent s
         = (Inr (Fallthrough (resolved_id parent ids)), s1, chain parent segs ids)"
  | (fail) k ids s1 r where "k < length segs" "length ids = k"
      "r = Inr Return \<or> (\<exists>x. r = Inl x)"
      "create_folders print service segs parent s
         = (r, s1, chain parent (take k segs) ids
              @ [CreateFolder (segs ! k) (resolved_id parent ids) None])"
  | (exc) ids x s1 where "length ids < length segs"
      "create_folders print service segs parent s = (Inl x, s1, chain parent segs ids)"
    by blast
  then show ?case
  proof cases
    case fall
    from upload_files_log [of files print service "path_join a segs" "resolved_id parent ids" s1]
    show ?thesis
    proof
      assume "\<exists>results s'. length results = length files \<and>
        upload_files print service (path_join a segs) files (resolved_id parent ids) s1
          = (Inr (), s', uploads (path_join a segs) (resolved_id parent ids) files results)"
      then obtain results s2 where results: "length results = length files"
        and uf: "upload_files print service (path_join a segs) files (resolved_id parent ids) s1
           = (Inr (), s2, uploads (path_join a segs) (resolved_id parent ids) files results)"
        by blast
      from Cons.IH [OF rest valid', of s2] obtain r s3 log3 where
        ue: "upload_entries (Inr cwd) print service a parent es s2 = (r, s3, log3)"
        and ml: "mirror_log a parent ses' r log3"
        by blast
      have "upload_entries (Inr cwd) print service a parent (e # es) s
          = (r, s3, chain parent segs ids
               @ uploads (path_join a segs) (resolved_id parent ids) files results @ log3)"
        unfolding e root step by (simp add: fall(2) uf ue)
      moreover have "mirror_log a parent ses r (chain parent segs ids
               @ uploads (path_join a segs) (resolved_id parent ids) files results @ log3)"
        unfolding ses using fall(1) results ml by (rule mirror_log.resolved)
      ultimately show ?thesis by blast
    next
      assume "\<exists>results e s'. length results < length files \<and>
        upload_files print service (path_join a segs) files (resolved_id parent ids) s1
          = (Inl e, s', uploads (path_join a segs) (resolved_id parent ids) files results)"
      then obtain results x s2 where results: "length results < length files"
        and uf: "upload_files print service (path_join a segs) files (resolved_id parent ids) s1
           = (Inl x, s2, uploads (path_join a segs) (resolved_id parent ids) files results)"
        by blast
      have "upload_entries (Inr cwd) print service a parent (e # es) s
          = (Inl x, s2, chain parent segs ids
               @ uploads (path_join a segs) (resolved_id parent ids) files results)"
        unfolding e root step by (simp add: fall(2) uf)
      moreover have "mirror_log a parent ses (Inl x) (chain parent segs ids
               @ uploads (path_join a segs) (resolved_id parent ids) files results)"
        unfolding ses using fall(1) results by (intro mirror_log.raised) simp_all
      ultimately show ?thesis by blast
    qed
  next
    case fail
    define r' :: "exn + unit" where "r' = (case r of Inl x \<Rightarrow> Inl x | Inr y \<Rightarrow> Inr ())"
    have "upload_entries (Inr cwd) print service a parent (e # es) s
        = (r', s1, chain parent (take k segs) ids
              @ [CreateFolder (segs ! k) (resolved_id parent ids) None])"
      unfolding e root step using fail(3) by (auto simp: fail(4) r'_def)
    moreover have "mirror_log a parent ses r' (chain parent (take k segs) ids
              @ [CreateFolder (segs ! k) (resolved_id parent ids) None])"
      unfolding ses using fail(1,2) by (rule mirror_log.aborted)
    ultimately show ?thesis by blast
  next
    case exc
    have "upload_entries (Inr cwd) print service a parent (e # es) s
        = (Inl x, s1, chain parent segs ids
             @ uploads (path_join a segs) (resolved_id parent ids) files [])"
      unfolding e root step by (simp add: exc(2))
    moreover have "mirror_log a parent ses (Inl x) (chain parent segs ids
             @ uploads (path_join a segs) (resolved_id parent ids) files [])"
      unfolding ses using exc(1) by (intro mirror_log.raised) simp_all
    ultimately show ?thesis by blast
  qed
qed

lemma upload_directory_mirror_log:
  assumes "isabs cwd" "wf_dir d" "local_directory \<noteq> []"
  shows "mirror_log local_directory parent (tree_dirs d)
     (fst (upload_directory (Inr cwd) print d service local_directory parent s))
     (calls (upload_directory (Inr cwd) print d service local_directory parent s))"
proof -
  have "map (\<lambda>(root, dirs, files). (root, files)) (walk local_directory d)
      = map (\<lambda>(segs, files). (path_join local_directory segs, files)) (tree_dirs d)"
    using walk_dirs_below [of local_directory "[]" d] by (simp add: tree_dirs_def path_join_def)
  moreover have "\<forall>(segs, files) \<in> set (tree_dirs d). \<forall>n \<in> set segs. valid_name n"
    using dirs_below_valid [OF assms(2), of "[]"] by (auto simp: tree_dirs_def)
  ultimately have "\<exists>r s' log. upload_entries (Inr cwd) print service local_directory parent
        (walk local_directory d) s = (r, s', log)
      \<and> mirror_log local_directory parent (tree_dirs d) r log"
    using assms(1,3) by (intro upload_entries_mirror_log)
  with assms(3) show ?thesis
    by (auto simp: upload_directory_def os_walk_def calls_def)
qed

lemma calls_upload_directory_empty:
  "calls (upload_directory getcwd print d service [] parent s) = []"
  by (simp add: calls_def upload_directory_def os_walk_def)

section \<open>Consequences of the shape of the calls\<close>

text \<open>
  Facts about every run of that shape: nothing follows a failed creation, and an upload
  comes after the complete chain of its directory; for a run that returns, the uploads
  attempted are the files of an initial part of the walk, and without a failed creation
  the number of folders created is the sum of the depths of the directories.
\<close>

lemma append_eq_split:
  assumes "xs @ ys = pre @ e # post"
  shows "(\<exists>m. xs = pre @ e # m \<and> post = m @ ys) \<or> (\<exists>m. pre = xs @ m \<and> ys = m @ e # post)"
proof -
  from assms consider us where "xs = pre @ us" "us @ ys = e # post"
    | us where "xs @ us = pre" "ys = us @ e # post"
    by (auto simp: append_eq_append_conv2)
  then show ?thesis
  proof cases
    case 1
    show ?thesis
    proof (cases us)
      case Nil
      with 1 show ?thesis by auto
    next
      case (Cons u us')
      with 1 show ?thesis by auto
    qed
  next
    case 2
    then show ?thesis by auto
  qed
qed

lemma chain_calls: "c \<in> set (chain parent names ids) \<Longrightarrow> \<not> is_upload c \<and> \<not> failed_create c"
  by (induction parent names ids rule: chain.induct) auto

lemma uploads_calls:
  "c \<in> set (uploads root parent files results) \<Longrightarrow>
   \<exists>f r. f \<in> set files \<and> c = UploadFile (path_join root [f]) parent r"
  by (auto simp: uploads_def dest: set_zip_leftD)

lemma uploads_is_upload: "c \<in> set (uploads root parent files results) \<Longrightarrow> is_upload c"
  by (auto dest: uploads_calls)

lemma split_skip:
  assumes "xs @ ys = pre @ e # post" "e \<notin> set xs"
  shows "\<exists>m. pre = xs @ m \<and> ys = m @ e # post"
  using append_eq_split [OF assms(1)] assms(2) by auto

lemma failed_create_not_upload: "failed_create c \<Longrightarrow> \<not> is_upload c"
  by (cases c) simp_all

lemma mirror_log_failed_last:
  "mirror_log a parent ses r log \<Longrightarrow> log = pre @ c # post \<Longrightarrow> failed_create c \<Longrightarrow> post = []"
proof (induction arbitrary: pre rule: mirror_log.induct)
  case finished
  then show ?case by simp
next
  case (resolved ids segs results files rest outcome log)
  let ?C = "chain parent segs ids"
  let ?U = "uploads (path_join a segs) (resolved_id parent ids) files results"
  have "c \<notin> set ?C"
    using resolved.prems(2) chain_calls [of c parent segs ids] by metis
  with split_skip [of ?C "?U @ log" pre c post] resolved.prems(1)
  obtain m where r: "?U @ log = m @ c # post"
    by metis
  have "c \<notin> set ?U"
    using resolved.prems(2) failed_create_not_upload [of c]
      uploads_is_upload [of c "path_join a segs" "resolved_id parent ids" files results]
    by metis
  with split_skip [of ?U log m c post] r obtain m' where "log = m' @ c # post"
    by metis
  then show ?case
    using resolved.prems(2) by (rule resolved.IH)
next
  case (aborted k segs ids files rest outcome)
  let ?C = "chain parent (take k segs) ids"
  let ?F = "[CreateFolder (segs ! k) (resolved_id parent ids) None]"
  have "c \<notin> set ?C"
    using aborted.prems(2) chain_calls [of c parent "take k segs" ids] by metis
  with split_skip [of ?C ?F pre c post] aborted.prems(1)
  obtain m where "?F = m @ c # post"
    by metis
  then show ?case by (cases m) simp_all
next
  case (raised ids segs results files rest e)
  let ?C = "chain parent segs ids"
  let ?U = "uploads (path_join a segs) (resolved_id parent ids) files results"
  have "c \<notin> set ?C"
    using raised.prems(2) chain_calls [of c parent segs ids] by metis
  with split_skip [of ?C ?U pre c post] raised.prems(1)
  obtain m where "?U = m @ c # post"
    by metis
  then have "c \<in> set ?U" by simp
  then have "is_upload c" by (rule uploads_is_upload)
  with raised.prems(2) show ?case
    using failed_create_not_upload [of c] by metis
qed

lemma mirror_log_upload_after_chain:
  "mirror_log a parent ses r0 log \<Longrightarrow> log = pre0 @ UploadFile fp par r # post \<Longrightarrow>
   \<exists>segs files f ids pre ups. (segs, files) \<in> set ses \<and> f \<in> set files
      \<and> fp = path_join (path_join a segs) [f] \<and> length ids = length segs
      \<and> pre0 = pre @ chain parent segs ids @ ups \<and> (\<forall>u \<in> set ups. is_upload u)
      \<and> par = resolved_id parent ids"
proof (induction arbitrary: pre0 rule: mirror_log.induct)
  case finished
  then show ?case by simp
next
  case (resolved ids segs results files rest outcome log)
  let ?C = "chain parent segs ids"
  let ?U = "uploads (path_join a segs) (resolved_id parent ids) files results"
  have "UploadFile fp par r \<notin> set ?C"
    using chain_calls [of "UploadFile fp par r" parent segs ids] by auto
  with split_skip [of ?C "?U @ log" pre0 "UploadFile fp par r" post] resolved.prems
  obtain m where m: "pre0 = ?C @ m"
    and r: "?U @ log = m @ UploadFile fp par r # post"
    by metis
  from append_eq_split [OF r] show ?case
  proof
    assume "\<exists>m'. ?U = m @ UploadFile fp par r # m' \<and> post = m' @ log"
    then obtain m' where U: "?U = m @ UploadFile fp par r # m'" by blast
    then have "UploadFile fp par r \<in> set ?U" by simp
    from uploads_calls [OF this] obtain f where f: "f \<in> set files"
      and fp: "fp = path_join (path_join a segs) [f]" and par: "par = resolved_id parent ids"
      by auto
    have "\<forall>u \<in> set m. is_upload u"
    proof
      fix u assume "u \<in> set m"
      then have "u \<in> set ?U" by (simp add: U)
      then show "is_upload u" by (rule uploads_is_upload)
    qed
    moreover have "pre0 = [] @ ?C @ m" using m by simp
    ultimately show ?thesis
      using f fp par resolved.hyps(1) by (intro exI [of _ segs] exI [of _ files] exI [of _ f] exI [of _ ids] exI [of _ "[]"] exI [of _ m]) simp
  next
    assume "\<exists>m'. m = ?U @ m' \<and> log = m' @ UploadFile fp par r # post"
    then obtain m' where m': "m = ?U @ m'" and log: "log = m' @ UploadFile fp par r # post"
      by blast
    from resolved.IH [OF log] obtain segs' files' f ids' pre ups where
      *: "(segs', files') \<in> set rest" "f \<in> set files'"
         "fp = path_join (path_join a segs') [f]" "length ids' = length segs'"
         "m' = pre @ chain parent segs' ids' @ ups" "\<forall>u \<in> set ups. is_upload u"
         "par = resolved_id parent ids'"
      by blast
    have "pre0 = (?C @ ?U @ pre) @ chain parent segs' ids' @ ups"
      using m m' *(5) by simp
    with * show ?thesis
      by (intro exI [of _ segs'] exI [of _ files'] exI [of _ f] exI [of _ ids'] exI [of _ "?C @ ?U @ pre"] exI [of _ ups]) simp
  qed
next
  case (aborted k segs ids files rest outcome)
  let ?C = "chain parent (take k segs) ids"
  let ?F = "[CreateFolder (segs ! k) (resolved_id parent ids) None]"
  have "UploadFile fp par r \<notin> set ?C"
    using chain_calls [of "UploadFile fp par r" parent "take k segs" ids] by auto
  with split_skip [of ?C ?F pre0 "UploadFile fp par r" post] aborted.prems
  obtain m where "?F = m @ UploadFile fp par r # post"
    by metis
  then show ?case by (cases m) simp_all
next
  case (raised ids segs results files rest e)
  let ?C = "chain parent segs ids"
  let ?U = "uploads (path_join a segs) (resolved_id parent ids) files results"
  have "UploadFile fp par r \<notin> set ?C"
    using chain_calls [of "UploadFile fp par r" parent segs ids] by auto
  with split_skip [of ?C ?U pre0 "UploadFile fp par r" post] raised.prems
  obtain m where m: "pre0 = ?C @ m" and U: "?U = m @ UploadFile fp par r # post"
    by metis
  then have mem: "UploadFile fp par r \<in> set ?U" by simp
  then have "results \<noteq> []" by (auto simp: uploads_def)
  with raised.hyps(1,3) have len: "length ids = length segs" by auto
  from uploads_calls [OF mem] obtain f where f: "f \<in> set files"
    and fp: "fp = path_join (path_join a segs) [f]" and par: "par = resolved_id parent ids"
    by auto
  have "\<forall>u \<in> set m. is_upload u"
  proof
    fix u assume "u \<in> set m"
    then have "u \<in> set ?U" by (simp add: U)
    then show "is_upload u" by (rule uploads_is_upload)
  qed
  moreover have "pre0 = [] @ ?C @ m" using m by simp
  ultimately show ?case
    using f fp par len by (intro exI [of _ segs] exI [of _ files] exI [of _ f] exI [of _ ids] exI [of _ "[]"] exI [of _ m]) simp
qed

lemma filter_upload_chain: "filter is_upload (chain parent names ids) = []"
  by (induction parent names ids rule: chain.induct) auto

lemma filter_upload_uploads:
  "filter is_upload (uploads root parent files results) = uploads root parent files results"
  by (simp add: uploads_def filter_id_conv split_beta)

lemma targets_uploads:
  "length results = length files \<Longrightarrow>
   map call_target (uploads root parent files results) = map (\<lambda>f. path_join root [f]) files"
proof (induction files arbitrary: results)
  case Nil
  then show ?case by (simp add: uploads_def)
next
  case (Cons f files)
  then obtain r rs where "results = r # rs" "length rs = length files"
    by (cases results) auto
  with Cons.IH [of rs] show ?case by (simp add: uploads_def)
qed


lemma mirror_log_failed_dir:
  "mirror_log a parent ses r log \<Longrightarrow> log = pre @ c # post \<Longrightarrow> failed_create c \<Longrightarrow>
   \<exists>j k. j < length ses \<and> k < length (fst (ses ! j)) \<and> call_target c = fst (ses ! j) ! k
     \<and> map call_target (filter is_upload log) = concat (map (dir_paths a) (take j ses))"
proof (induction arbitrary: pre rule: mirror_log.induct)
  case finished
  then show ?case by simp
next
  case (resolved ids segs results files rest outcome log)
  let ?C = "chain parent segs ids"
  let ?U = "uploads (path_join a segs) (resolved_id parent ids) files results"
  have "c \<notin> set ?C"
    using resolved.prems(2) chain_calls [of c parent segs ids] by metis
  with split_skip [of ?C "?U @ log" pre c post] resolved.prems(1)
  obtain m where r: "?U @ log = m @ c # post"
    by metis
  have "c \<notin> set ?U"
    using resolved.prems(2) failed_create_not_upload [of c]
      uploads_is_upload [of c "path_join a segs" "resolved_id parent ids" files results]
    by metis
  with split_skip [of ?U log m c post] r obtain m' where "log = m' @ c # post"
    by metis
  from resolved.IH [OF this resolved.prems(2)] obtain j k where
    j: "j < length rest" and k: "k < length (fst (rest ! j))"
    and c: "call_target c = fst (rest ! j) ! k"
    and t: "map call_target (filter is_upload log) = concat (map (dir_paths a) (take j rest))"
    by blast
  have "map call_target (filter is_upload (?C @ ?U @ log))
      = concat (map (dir_paths a) (take (Suc j) ((segs, files) # rest)))"
    using resolved.hyps(2)
    by (simp add: filter_upload_chain filter_upload_uploads targets_uploads t dir_paths_def)
  moreover have "Suc j < length ((segs, files) # rest)" using j by simp
  moreover have "k < length (fst (((segs, files) # rest) ! Suc j))" using k by simp
  moreover have "call_target c = fst (((segs, files) # rest) ! Suc j) ! k" using c by simp
  ultimately show ?case by blast
next
  case (aborted k segs ids files rest outcome)
  let ?C = "chain parent (take k segs) ids"
  let ?F = "[CreateFolder (segs ! k) (resolved_id parent ids) None]"
  have "c \<notin> set ?C"
    using aborted.prems(2) chain_calls [of c parent "take k segs" ids] by metis
  with split_skip [of ?C ?F pre c post] aborted.prems(1)
  obtain m where "?F = m @ c # post"
    by metis
  then have c: "c = CreateFolder (segs ! k) (resolved_id parent ids) None"
    by (cases m) simp_all
  have "map call_target (filter is_upload (?C @ ?F)) = concat (map (dir_paths a) (take 0 ((segs, files) # rest)))"
    by (simp add: filter_upload_chain)
  moreover have "0 < length ((segs, files) # rest)" by simp
  moreover have "k < length (fst (((segs, files) # rest) ! 0))" using aborted.hyps(1) by simp
  moreover have "call_target c = fst (((segs, files) # rest) ! 0) ! k" by (simp add: c)
  ultimately show ?case by blast
next
  case (raised ids segs results files rest e)
  let ?C = "chain parent segs ids"
  let ?U = "uploads (path_join a segs) (resolved_id parent ids) files results"
  have "c \<notin> set ?C"
    using raised.prems(2) chain_calls [of c parent segs ids] by metis
  with split_skip [of ?C ?U pre c post] raised.prems(1)
  obtain m where "?U = m @ c # post"
    by metis
  then have "c \<in> set ?U" by simp
  then have "is_upload c" by (rule uploads_is_upload)
  with raised.prems(2) show ?case
    using failed_create_not_upload [of c] by metis
qed

lemma mirror_log_Nil: "mirror_log a parent [] r log \<Longrightarrow> log = []"
  by (erule mirror_log.cases) simp_all

lemma mirror_log_Cons:
  "mirror_log a parent ((segs, files) # rest) (Inr ()) log \<Longrightarrow>
   (\<exists>ids results log'. length ids = length segs \<and> length results = length files
       \<and> mirror_log a parent rest (Inr ()) log'
       \<and> log = chain parent segs ids
             @ uploads (path_join a segs) (resolved_id parent ids) files results @ log')
   \<or> (\<exists>ids. length ids < length segs
       \<and> log = chain parent (take (length ids) segs) ids
             @ [CreateFolder (segs ! length ids) (resolved_id parent ids) None])"
  by (erule mirror_log.cases) auto

lemma commonprefix_same: "commonprefix xs xs = xs"
  by (induction xs) simp_all

lemma relpath_self: "a \<noteq> [] \<Longrightarrow> relpath (Inr cwd) a a = Inr ''.''"
  by (simp add: relpath_Inr Let_def commonprefix_same)

lemma uploads_single:
  "length results = Suc 0 \<Longrightarrow>
   \<exists>r. uploads root parent [f] results = [UploadFile (path_join root [f]) parent r]"
  by (cases results) (simp_all add: uploads_def)

lemma length_one: "length ids = Suc 0 \<Longrightarrow> \<exists>i. ids = [i]"
  by (cases ids) simp_all

lemma length_chain: "length ids = length names \<Longrightarrow> length (chain parent names ids) = length names"
  by (induction parent names ids rule: chain.induct) simp_all

lemma filter_create_chain: "filter (\<lambda>c. \<not> is_upload c) (chain parent names ids) = chain parent names ids"
  by (induction parent names ids rule: chain.induct) simp_all

lemma filter_create_uploads: "filter (\<lambda>c. \<not> is_upload c) (uploads root parent files results) = []"
  by (simp add: uploads_def filter_empty_conv split_beta)

lemma mirror_log_creations:
  "mirror_log a parent ses r log \<Longrightarrow> r = Inr () \<Longrightarrow> \<forall>c \<in> set log. \<not> failed_create c \<Longrightarrow>
   length (filter (\<lambda>c. \<not> is_upload c) log) = sum_list (map (\<lambda>(segs, files). length segs) ses)"
proof (induction rule: mirror_log.induct)
  case finished
  then show ?case by simp
next
  case (resolved ids segs results files rest outcome log)
  from resolved.prems have "\<forall>c \<in> set log. \<not> failed_create c" by simp
  with resolved.prems(1)
  have "length (filter (\<lambda>c. \<not> is_upload c) log) = sum_list (map (\<lambda>(segs, files). length segs) rest)"
    by (rule resolved.IH)
  then show ?case
    using resolved.hyps(1) by (simp add: filter_create_chain filter_create_uploads length_chain)
next
  case (aborted k segs ids files rest outcome)
  then show ?case by simp
next
  case (raised ids segs results files rest e)
  then show ?case by simp
qed

lemma creations_count:
  assumes "isabs cwd" "wf_dir d" "local_directory \<noteq> []"
    and "fst (upload_directory (Inr cwd) print d service local_directory parent s) = Inr ()"
    and "\<forall>c \<in> set (calls (upload_directory (Inr cwd) print d service local_directory parent s)).
           \<not> failed_create c"
  shows "length (filter (\<lambda>c. \<not> is_upload c)
           (calls (upload_directory (Inr cwd) print d service local_directory parent s)))
     = sum_list (map (\<lambda>(segs, files). length segs) (tree_dirs d))"
proof -
  have "mirror_log local_directory parent (tree_dirs d)
     (fst (upload_directory (Inr cwd) print d service local_directory parent s))
     (calls (upload_directory (Inr cwd) print d service local_directory parent s))"
    using assms(1-3) by (rule upload_directory_mirror_log)
  then show ?thesis using assms(4,5) by (rule mirror_log_creations)
qed

section \<open>The wrappers and the runs that return\<close>

text \<open>
  Each wrapper in terms of its remote part, and the runs that cannot be cut: with a
  remote store that raises only instances of \<^verbatim>\<open>Exception\<close> and a terminal that takes
  every message, both wrappers return, and so does the driver.
\<close>

lemma create_folder_remote:
  "create_folder print service folder_name parent_folder_id s =
     (case remote_create service folder_name parent_folder_id s of
        (Inr folder, s1) \<Rightarrow> (Inr (map_of folder ''id''), s1)
      | (Inl e, s1) \<Rightarrow>
          if is_Exception e
          then (case print (error_creating folder_name e) s1 of
                  (Some e', s2) \<Rightarrow> (Inl e', s2)
                | (None, s2) \<Rightarrow> (Inr None, s2))
          else (Inl e, s1))"
  by (simp add: create_folder_def create_folder_try_def remote_create_def folder_request_def
      split: prod.splits sum.splits)

lemma upload_file_remote:
  "upload_file print service file_path parent_folder_id s =
     (case remote_upload service file_path parent_folder_id s of
        (Inr file, s1) \<Rightarrow> (Inr (map_of file ''id''), s1)
      | (Inl e, s1) \<Rightarrow>
          if is_Exception e
          then (case print (error_uploading file_path e) s1 of
                  (Some e', s2) \<Rightarrow> (Inl e', s2)
                | (None, s2) \<Rightarrow> (Inr None, s2))
          else (Inl e, s1))"
  by (simp add: upload_file_def upload_file_try_def remote_upload_def file_request_def
      split: prod.splits sum.splits)

lemma create_folder_quiet:
  assumes "only_Exceptions service" "never_raises print"
  shows "\<exists>r s'. create_folder print service n parent s = (Inr r, s')"
proof -
  obtain x s1 where rc: "remote_create service n parent s = (x, s1)"
    by (cases "remote_create service n parent s") auto
  show ?thesis
  proof (cases x)
    case (Inl e)
    with rc assms(1) have "is_Exception e"
      unfolding only_Exceptions_def remote_create_def by blast
    moreover obtain s2 where "print (error_creating n e) s1 = (None, s2)"
      using assms(2) unfolding never_raises_def
      by (metis prod.collapse)
    ultimately show ?thesis
      by (simp add: create_folder_remote rc Inl)
  next
    case (Inr folder)
    then show ?thesis by (simp add: create_folder_remote rc)
  qed
qed

lemma upload_file_quiet:
  assumes "only_Exceptions service" "never_raises print"
  shows "\<exists>r s'. upload_file print service file_path parent s = (Inr r, s')"
proof -
  obtain x s1 where rc: "remote_upload service file_path parent s = (x, s1)"
    by (cases "remote_upload service file_path parent s") auto
  show ?thesis
  proof (cases x)
    case (Inl e)
    have "is_Exception e"
    proof (cases "MediaFileUpload service file_path")
      case (Inl e')
      with rc \<open>x = Inl e\<close> have "e' = e" by (simp add: remote_upload_def)
      with Inl assms(1) show ?thesis unfolding only_Exceptions_def by blast
    next
      case (Inr media)
      with rc \<open>x = Inl e\<close>
      have "files_create_execute service (file_request file_path parent) (Some media) s = (Inl e, s1)"
        by (simp add: remote_upload_def)
      with assms(1) show ?thesis unfolding only_Exceptions_def by blast
    qed
    moreover obtain s2 where "print (error_uploading file_path e) s1 = (None, s2)"
      using assms(2) unfolding never_raises_def
      by (metis prod.collapse)
    ultimately show ?thesis
      by (simp add: upload_file_remote rc Inl)
  next
    case (Inr resp)
    then show ?thesis by (simp add: upload_file_remote rc)
  qed
qed

lemma create_folders_quiet:
  assumes "only_Exceptions service" "never_raises print"
  shows "\<exists>r s' log. create_folders print service names parent s = (Inr r, s', log)"
proof (induction names arbitrary: parent s)
  case Nil
  then show ?case by simp
next
  case (Cons n names)
  from create_folder_quiet [OF assms, of n parent s] obtain r s1 where
    cf: "create_folder print service n parent s = (Inr r, s1)" by blast
  show ?case
  proof (cases r)
    case None
    obtain s2 where "print (failed_to_create n) s1 = (None, s2)"
      using assms(2) unfolding never_raises_def by (metis prod.collapse)
    then show ?thesis by (simp add: cf None)
  next
    case (Some i)
    from Cons.IH [of "Some i" s1] obtain r' s' log where
      "create_folders print service names (Some i) s1 = (Inr r', s', log)" by blast
    then show ?thesis by (simp add: cf Some)
  qed
qed

lemma upload_files_quiet:
  assumes "only_Exceptions service" "never_raises print"
  shows "\<exists>s' log. upload_files print service root files parent s = (Inr (), s', log)"
proof (induction files arbitrary: s)
  case Nil
  then show ?case by simp
next
  case (Cons f files)
  from upload_file_quiet [OF assms, of "path_join root [f]" parent s] obtain r s1 where
    uf: "upload_file print service (path_join root [f]) parent s = (Inr r, s1)" by blast
  from Cons.IH [of s1] obtain s' log where
    "upload_files print service root files parent s1 = (Inr (), s', log)" by blast
  then show ?case by (simp add: uf)
qed

lemma upload_entries_quiet:
  assumes "only_Exceptions service" "never_raises print" "isabs cwd" "a \<noteq> []"
  shows "map (\<lambda>(root, dirs, files). (root, files)) es
           = map (\<lambda>(segs, files). (path_join a segs, files)) ses \<Longrightarrow>
         \<forall>(segs, files) \<in> set ses. \<forall>n \<in> set segs. valid_name n \<Longrightarrow>
         fst (upload_entries (Inr cwd) print service a parent es s) = Inr ()"
proof (induction es arbitrary: ses s)
  case Nil
  then show ?case by simp
next
  case (Cons e es)
  obtain root dirs files where e: "e = (root, dirs, files)" by (cases e)
  from Cons.prems(1) obtain segs ses' where ses: "ses = (segs, files) # ses'"
    and root: "root = path_join a segs"
    and rest: "map (\<lambda>(root, dirs, files). (root, files)) es
           = map (\<lambda>(segs, files). (path_join a segs, files)) ses'"
    by (cases ses) (auto simp: e)
  from Cons.prems(2) have valid: "\<forall>n \<in> set segs. valid_name n"
    and valid': "\<forall>(segs, files) \<in> set ses'. \<forall>n \<in> set segs. valid_name n"
    by (simp_all add: ses)
  note step = upload_entries_step [OF assms(3,4) valid, of print service parent dirs files es s]
  from create_folders_quiet [OF assms(1,2), of segs parent s] obtain r s1 log1 where
    cf: "create_folders print service segs parent s = (Inr r, s1, log1)" by blast
  show ?case
  proof (cases r)
    case Return
    then show ?thesis unfolding e root step by (simp add: cf)
  next
    case (Fallthrough cur)
    from upload_files_quiet [OF assms(1,2), of "path_join a segs" files cur s1] obtain s2 log2 where
      uf: "upload_files print service (path_join a segs) files cur s1 = (Inr (), s2, log2)" by blast
    have "fst (upload_entries (Inr cwd) print service a parent es s2) = Inr ()"
      using rest valid' by (rule Cons.IH)
    then obtain s3 log3 where
      "upload_entries (Inr cwd) print service a parent es s2 = (Inr (), s3, log3)"
      by (cases "upload_entries (Inr cwd) print service a parent es s2") auto
    then show ?thesis
      unfolding e root step by (simp add: cf Fallthrough uf)
  qed
qed

lemma quiet_run_returns:
  assumes "only_Exceptions service" "never_raises print" "isabs cwd" "wf_dir d"
  shows "fst (upload_directory (Inr cwd) print d service local_directory parent s) = Inr ()"
proof (cases "local_directory = []")
  case True
  then show ?thesis by (simp add: upload_directory_def os_walk_def)
next
  case False
  have "map (\<lambda>(root, dirs, files). (root, files)) (walk local_directory d)
      = map (\<lambda>(segs, files). (path_join local_directory segs, files)) (tree_dirs d)"
    using walk_dirs_below [of local_directory "[]" d] by (simp add: tree_dirs_def path_join_def)
  moreover have "\<forall>(segs, files) \<in> set (tree_dirs d). \<forall>n \<in> set segs. valid_name n"
    using dirs_below_valid [OF assms(4), of "[]"] by (auto simp: tree_dirs_def)
  ultimately have "fst (upload_entries (Inr cwd) print service local_directory parent
        (walk local_directory d) s) = Inr ()"
    using assms(1-3) False by (intro upload_entries_quiet)
  with False show ?thesis by (simp add: upload_directory_def os_walk_def)
qed

section \<open>The path decomposition of visited and other paths\<close>

text \<open>
  When the path decomposition fails; what it gives for the directories of the walk; and
  what it gives for a path that is not at or below the mirror root.
\<close>

lemma folder_names_of_failure:
  "(folder_names_of getcwd root local_directory = Inl e)
     = ((root = [] \<and> e = ValueError ''no path specified'')
        \<or> (root \<noteq> [] \<and> (\<not> isabs local_directory \<or> \<not> isabs root) \<and> getcwd = Inl e))"
  by (cases getcwd)
    (auto simp: folder_names_of_def relpath_def abspath_def Let_def split: sum.splits)

lemma relpath_absolute:
  "isabs path \<Longrightarrow> isabs start \<Longrightarrow> relpath getcwd path start = relpath (Inr cwd) path start"
  by (simp add: relpath_def abspath_def)

lemma isabs_path_join:
  "a \<noteq> [] \<Longrightarrow> \<forall>n \<in> set ns. valid_name n \<Longrightarrow> isabs (path_join a ns) = isabs a"
proof (induction ns rule: rev_induct)
  case Nil
  then show ?case by (simp add: path_join_def)
next
  case (snoc n ns)
  then have ns: "\<forall>n \<in> set ns. valid_name n" and n: "valid_name n" by simp_all
  have "path_join a ns \<noteq> []"
    using snoc.prems(1) ns by (rule path_join_not_Nil)
  then have "isabs (join_step (path_join a ns) n) = isabs (path_join a ns)"
    using n by (rule isabs_join_step)
  also have "\<dots> = isabs a"
    using snoc.prems(1) ns by (rule snoc.IH)
  finally show ?case by (simp add: path_join_snoc)
qed

lemma isabs_root: "isabs ''/''"
  by (simp add: isabs_def sep_def)

lemma folder_names_of_reachable:
  assumes "isabs a \<or> (\<exists>cwd. getcwd = Inr cwd \<and> isabs cwd)"
    and "a \<noteq> []" "\<forall>n \<in> set segs. valid_name n"
  shows "folder_names_of getcwd (path_join a segs) a = Inr segs"
  using assms(1)
proof
  assume a: "isabs a"
  then have "isabs (path_join a segs)"
    using assms(2,3) by (simp add: isabs_path_join)
  then have "relpath getcwd (path_join a segs) a = relpath (Inr ''/'') (path_join a segs) a"
    using a by (rule relpath_absolute)
  then have "folder_names_of getcwd (path_join a segs) a
      = folder_names_of (Inr ''/'') (path_join a segs) a"
    by (simp add: folder_names_of_def)
  also have "\<dots> = Inr segs"
    using isabs_root assms(2,3) by (rule folder_names_of_descendant)
  finally show ?thesis .
next
  assume "\<exists>cwd. getcwd = Inr cwd \<and> isabs cwd"
  then obtain cwd where "getcwd = Inr cwd" "isabs cwd" by blast
  then show ?thesis
    using assms(2,3) by (simp add: folder_names_of_descendant)
qed

lemma walk_folder_names:
  assumes "isabs local_directory \<or> (\<exists>cwd. getcwd = Inr cwd \<and> isabs cwd)"
    and "wf_dir d" "local_directory \<noteq> []"
  shows "map (\<lambda>(root, dirs, files). (folder_names_of getcwd root local_directory, files))
           (os_walk local_directory d)
       = map (\<lambda>(segs, files). (Inr segs, files)) (tree_dirs d)"
proof -
  have w: "map (\<lambda>(root, dirs, files). (root, files)) (walk local_directory d)
      = map (\<lambda>(segs, files). (path_join local_directory segs, files)) (tree_dirs d)"
    using walk_dirs_below [of local_directory "[]" d] by (simp add: tree_dirs_def path_join_def)
  have valid: "\<forall>(segs, files) \<in> set (tree_dirs d). \<forall>n \<in> set segs. valid_name n"
    using dirs_below_valid [OF assms(2), of "[]"] by (auto simp: tree_dirs_def)
  have "map (\<lambda>(root, dirs, files). (folder_names_of getcwd root local_directory, files))
           (walk local_directory d)
      = map (\<lambda>(root, files). (folder_names_of getcwd root local_directory, files))
          (map (\<lambda>(root, dirs, files). (root, files)) (walk local_directory d))"
    by (simp add: split_beta)
  also have "\<dots> = map (\<lambda>(segs, files).
        (folder_names_of getcwd (path_join local_directory segs) local_directory, files))
      (tree_dirs d)"
    by (simp add: w split_beta)
  also have "\<dots> = map (\<lambda>(segs, files). (Inr segs, files)) (tree_dirs d)"
  proof (rule map_cong [OF refl])
    fix x assume x: "x \<in> set (tree_dirs d)"
    obtain segs files where sf: "x = (segs, files)" by (cases x)
    with x valid have "\<forall>n \<in> set segs. valid_name n" by auto
    with assms(1,3)
    have "folder_names_of getcwd (path_join local_directory segs) local_directory = Inr segs"
      by (rule folder_names_of_reachable)
    then show "(case x of (segs, files) \<Rightarrow>
          (folder_names_of getcwd (path_join local_directory segs) local_directory, files))
        = (case x of (segs, files) \<Rightarrow> (Inr segs, files))"
      by (simp add: sf)
  qed
  finally show ?thesis
    using assms(3) by (simp add: os_walk_def)
qed

lemma join_step_clean:
  assumes "p \<noteq> []" "n \<noteq> []" "sep \<notin> set n"
  shows "join_step p n = (if last p = sep then p @ n else p @ sep # n)"
proof -
  from assms(2,3) have "hd n \<noteq> sep"
    using hd_in_set [of n] by metis
  with assms(1) show ?thesis by (simp add: join_step_def)
qed

lemma foldl_join_step_clean:
  "a \<noteq> [] \<Longrightarrow> last a \<noteq> sep \<Longrightarrow> \<forall>n \<in> set ns. n \<noteq> [] \<and> sep \<notin> set n \<Longrightarrow>
   foldl join_step a ns = a @ concat (map (\<lambda>n. sep # n) ns)"
proof (induction ns arbitrary: a)
  case Nil
  then show ?case by simp
next
  case (Cons n ns)
  then have n: "n \<noteq> []" "sep \<notin> set n" and ns: "\<forall>n \<in> set ns. n \<noteq> [] \<and> sep \<notin> set n"
    by simp_all
  have js: "join_step a n = a @ sep # n"
    using Cons.prems(1,2) n by (simp add: join_step_clean)
  have "last n \<noteq> sep"
    using n last_in_set [of n] by metis
  then have "last (a @ sep # n) \<noteq> sep" using n(1) by simp
  moreover have "a @ sep # n \<noteq> []" by simp
  ultimately have "foldl join_step (a @ sep # n) ns = (a @ sep # n) @ concat (map (\<lambda>n. sep # n) ns)"
    using ns by (intro Cons.IH)
  then show ?case by (simp add: js)
qed

lemma abs_comps_clean:
  assumes "isabs cwd"
  shows "\<forall>c \<in> set (abs_comps cwd p). c \<noteq> [] \<and> sep \<notin> set c"
proof -
  have "\<forall>c \<in> set ([]::string list). c \<noteq> [] \<and> sep \<notin> set c" by simp
  moreover have "\<forall>x \<in> set (split_sep (full_path cwd p)). sep \<notin> set x"
    by (simp add: split_sep_comps_no_sep)
  ultimately have "\<forall>c \<in> set (foldl (norm_step (Suc 0)) [] (split_sep (full_path cwd p))).
      c \<noteq> [] \<and> sep \<notin> set c"
    by (rule foldl_norm_step_clean)
  then show ?thesis
    by (simp only: abs_comps_stack [OF assms])
qed

lemma commonprefix_length_le: "length (commonprefix xs ys) \<le> length xs"
  by (induction xs ys rule: commonprefix.induct) simp_all

lemma commonprefix_full:
  "length (commonprefix xs ys) = length xs \<Longrightarrow> take (length xs) ys = xs"
  by (induction xs ys rule: commonprefix.induct) (simp_all split: if_splits)

lemma folder_names_of_outside:
  assumes "isabs cwd" "root \<noteq> []" "\<not> below cwd root local_directory"
  shows "\<exists>rest. folder_names_of (Inr cwd) root local_directory = Inr (''..'' # rest)"
proof -
  define sl where "sl = abs_comps cwd local_directory"
  define pl where "pl = abs_comps cwd root"
  define i where "i = length (commonprefix sl pl)"
  have "take (length sl) pl \<noteq> sl"
    using assms(3) by (simp add: below_def sl_def pl_def)
  then have "i \<noteq> length sl"
    unfolding i_def using commonprefix_full [of sl pl] by metis
  moreover have "i \<le> length sl"
    unfolding i_def by (rule commonprefix_length_le)
  ultimately obtain m where m: "length sl - i = Suc m"
    by (cases "length sl - i") simp_all
  define R where "R = replicate m ''..'' @ drop i pl"
  have rel: "replicate (length sl - i) ''..'' @ drop i pl = ''..'' # R"
    by (simp add: m R_def)
  have "\<forall>c \<in> set pl. c \<noteq> [] \<and> sep \<notin> set c"
    unfolding pl_def using assms(1) by (rule abs_comps_clean)
  then have "\<forall>c \<in> set (drop i pl). c \<noteq> [] \<and> sep \<notin> set c"
    by (meson in_set_dropD)
  moreover have dd: "''..'' \<noteq> [] \<and> sep \<notin> set ''..''"
    by (simp add: sep_def)
  ultimately have clean: "\<forall>c \<in> set R. c \<noteq> [] \<and> sep \<notin> set c"
    by (auto simp: R_def)
  have "last ''..'' \<noteq> sep" by (simp add: sep_def)
  then have "foldl join_step ''..'' R = ''..'' @ concat (map (\<lambda>n. sep # n) R)"
    using clean by (intro foldl_join_step_clean) simp_all
  then have pj: "path_join ''..'' R = sep_join (''..'' # R)"
    by (simp add: path_join_def sep_join_Cons)
  have "relpath (Inr cwd) root local_directory
      = (if replicate (length sl - i) ''..'' @ drop i pl = [] then Inr ''.''
         else Inr (path_join (hd (replicate (length sl - i) ''..'' @ drop i pl))
                     (tl (replicate (length sl - i) ''..'' @ drop i pl))))"
    by (simp only: relpath_Inr [OF assms(2)] Let_def sl_def pl_def i_def)
  then have "relpath (Inr cwd) root local_directory = Inr (path_join ''..'' R)"
    by (simp only: rel) simp
  then have rp: "relpath (Inr cwd) root local_directory = Inr (sep_join (''..'' # R))"
    by (simp only: pj)
  have nd: "sep_join (''..'' # R) \<noteq> ''.''"
    by (simp add: sep_join_Cons)
  have "\<forall>c \<in> set (''..'' # R). sep \<notin> set c"
    using clean dd by simp
  then have "split_sep (sep_join (''..'' # R)) = ''..'' # R"
    by (intro split_sep_join) simp_all
  with rp nd have "folder_names_of (Inr cwd) root local_directory = Inr (''..'' # R)"
    by (simp add: folder_names_of_def)
  then show ?thesis by blast
qed

section \<open>The wrappers around the remote store\<close>




section \<open>The mirror driver on whole trees\<close>

text \<open>
  The statements below are about a run of \<^verbatim>\<open>upload_directory\<close> on a well-formed
  tree, in a process whose \<^verbatim>\<open>os.getcwd()\<close> returns an absolute path \<open>cwd\<close>.
  Directories are named by the list of names that leads to them from the mirror root, in
  the order of the walk (\<open>tree_dirs\<close>); the calls of the run are \<open>calls\<close> of its
  result, and its outcome is the first component. A run can be cut by an exception that
  the wrappers do not catch (an interrupt during a remote call, a message that cannot be
  printed). C4 and C5 hold of every run, cut or not. C6, C7 and C9 say which calls a run
  makes in all, so they are about the runs that return; \<open>quiet_run_returns\<close> shows that
  these include every run in which the remote store raises nothing but instances of
  \<^verbatim>\<open>Exception\<close> and printing does not raise.
\<close>

text \<open>
  C1. Mirroring recreates the folder structure: one remote folder per local
  subdirectory, whose parent is the folder created for the local parent. The driver
  visibly aims at this (it creates a folder for every name on the way to a visited
  directory), but it starts again from the top parent at every visited directory.
  On \<^verbatim>\<open>root/a/{f.txt, b/g.txt}\<close> the folder \<^verbatim>\<open>a\<close> is created twice: \<^verbatim>\<open>f.txt\<close>
  goes into the first one, \<^verbatim>\<open>F1\<close>, while \<^verbatim>\<open>b\<close> is created under the second one,
  \<^verbatim>\<open>F2\<close>.
\<close>

theorem nested_directory_created_twice:
  "calls (upload_directory (Inr ''/home/u'') quiet
            (Dir [] [(''a'', Dir [''f.txt''] [(''b'', Dir [''g.txt''] [])])])
            scripted ''root'' (Some ''P'')
            [Some ''F1'', Some ''U1'', Some ''F2'', Some ''F3'', Some ''U2''])
     = [CreateFolder ''a'' (Some ''P'') (Some ''F1''),
        UploadFile ''root/a/f.txt'' (Some ''F1'') (Some ''U1''),
        CreateFolder ''a'' (Some ''P'') (Some ''F2''),
        CreateFolder ''b'' (Some ''F2'') (Some ''F3''),
        UploadFile ''root/a/b/g.txt'' (Some ''F3'') (Some ''U2'')]"
  by code_simp

text \<open>
  C2. When a folder cannot be created, the files in sibling directories outside its
  subtree are still uploaded. The driver leaves the whole function at the first failed
  creation: on \<^verbatim>\<open>root/{sub1/x.txt, sub2/y.txt}\<close> with the creation of \<^verbatim>\<open>sub1\<close>
  failing, the run ends after that single call, the remote store is never asked about
  \<^verbatim>\<open>sub2\<close>, and \<^verbatim>\<open>y.txt\<close> is not uploaded.
\<close>

theorem failed_folder_aborts_siblings:
  "upload_directory (Inr ''/home/u'') quiet
     (Dir [] [(''sub1'', Dir [''x.txt''] []), (''sub2'', Dir [''y.txt''] [])])
     scripted ''root'' (Some ''P'') [None, Some ''F2'', Some ''U2'']
     = (Inr (), [Some ''F2'', Some ''U2''], [CreateFolder ''sub1'' (Some ''P'') None])"
  by code_simp

text \<open>
  C3. On a tree of empty directories, with every creation succeeding, the number of
  folder creations is the number of directories without the mirror root. On
  \<^verbatim>\<open>root/a/b\<close> there are two such directories, and the driver creates three folders:
  \<^verbatim>\<open>a\<close> once for itself and once more on the way to \<^verbatim>\<open>b\<close>. (In general the
  number of creations is the sum of the depths, \<open>creations_count\<close>.)
\<close>

theorem empty_nested_directories_three_creations:
  "calls (upload_directory (Inr ''/home/u'') quiet (Dir [] [(''a'', Dir [] [(''b'', Dir [] [])])])
            scripted ''root'' (Some ''P'') [Some ''F1'', Some ''F2'', Some ''F3''])
     = [CreateFolder ''a'' (Some ''P'') (Some ''F1''),
        CreateFolder ''a'' (Some ''P'') (Some ''F2''),
        CreateFolder ''b'' (Some ''F2'') (Some ''F3'')]
   \<and> length (tree_dirs (Dir [] [(''a'', Dir [] [(''b'', Dir [] [])])])) - 1 = 2"
  by code_simp

text \<open>
  C4. No file is uploaded before the folders of all ancestors of its directory have been
  created successfully, ancestor before descendant. Whenever the run uploads a file,
  the file belongs to a directory of the tree, and the calls made so far end with the
  complete chain of successful creations for the names leading to that directory, each
  folder created under the id returned for the one before, followed only by uploads of
  files of the same directory; the file goes into the folder the chain ends with (the
  top parent itself when the directory is the mirror root).
\<close>

theorem upload_only_after_resolution:
  assumes "isabs cwd" "wf_dir d"
    and "calls (upload_directory (Inr cwd) print d service local_directory parent_folder_id s)
           = before @ UploadFile file_path parent r # after"
  shows "\<exists>segs files file_name ids earlier siblings.
      (segs, files) \<in> set (tree_dirs d) \<and> file_name \<in> set files
      \<and> file_path = path_join (path_join local_directory segs) [file_name]
      \<and> length ids = length segs
      \<and> before = earlier @ chain parent_folder_id segs ids @ siblings
      \<and> (\<forall>u \<in> set siblings. is_upload u)
      \<and> parent = resolved_id parent_folder_id ids"
proof (cases "local_directory = []")
  case True
  with assms(3) show ?thesis by (simp add: calls_upload_directory_empty)
next
  case False
  with assms(1,2) have "mirror_log local_directory parent_folder_id (tree_dirs d)
     (fst (upload_directory (Inr cwd) print d service local_directory parent_folder_id s))
     (calls (upload_directory (Inr cwd) print d service local_directory parent_folder_id s))"
    by (rule upload_directory_mirror_log)
  then show ?thesis
    using assms(3) by (rule mirror_log_upload_after_chain)
qed

theorem upload_only_after_resolution_witness:
  "isabs ''/home/u''
   \<and> wf_dir (Dir [''a.txt''] [(''sub'', Dir [''b.txt'', ''c.txt''] [])])
   \<and> calls (upload_directory (Inr ''/home/u'') quiet (Dir [''a.txt''] [(''sub'', Dir [''b.txt'', ''c.txt''] [])])
              scripted ''root'' (Some ''P'') [Some ''U1'', Some ''F1'', None, Some ''U3''])
       = [UploadFile ''root/a.txt'' (Some ''P'') (Some ''U1''),
          CreateFolder ''sub'' (Some ''P'') (Some ''F1''),
          UploadFile ''root/sub/b.txt'' (Some ''F1'') None]
         @ UploadFile ''root/sub/c.txt'' (Some ''F1'') (Some ''U3'') # []
   \<and> (\<exists>segs files file_name ids earlier siblings.
        (segs, files) \<in> set (tree_dirs (Dir [''a.txt''] [(''sub'', Dir [''b.txt'', ''c.txt''] [])]))
        \<and> file_name \<in> set files
        \<and> ''root/sub/c.txt'' = path_join (path_join ''root'' segs) [file_name]
        \<and> length ids = length segs
        \<and> [UploadFile ''root/a.txt'' (Some ''P'') (Some ''U1''),
            CreateFolder ''sub'' (Some ''P'') (Some ''F1''),
            UploadFile ''root/sub/b.txt'' (Some ''F1'') None]
           = earlier @ chain (Some ''P'') segs ids @ siblings
        \<and> (\<forall>u \<in> set siblings. is_upload u)
        \<and> Some ''F1'' = resolved_id (Some ''P'') ids)"
proof -
  have h1: "isabs ''/home/u''"
    by code_simp
  have h2: "wf_dir (Dir [''a.txt''] [(''sub'', Dir [''b.txt'', ''c.txt''] [])])"
    by code_simp
  have h3: "calls (upload_directory (Inr ''/home/u'') quiet (Dir [''a.txt''] [(''sub'', Dir [''b.txt'', ''c.txt''] [])])
              scripted ''root'' (Some ''P'') [Some ''U1'', Some ''F1'', None, Some ''U3''])
       = [UploadFile ''root/a.txt'' (Some ''P'') (Some ''U1''),
          CreateFolder ''sub'' (Some ''P'') (Some ''F1''),
          UploadFile ''root/sub/b.txt'' (Some ''F1'') None]
         @ UploadFile ''root/sub/c.txt'' (Some ''F1'') (Some ''U3'') # []"
    by code_simp
  note c = upload_only_after_resolution [OF h1 h2 h3]
  show ?thesis
    by (rule conjI h1 h2 h3 c)+
qed

text \<open>
  C5. When the creation of a folder on the way to a visited directory fails, no file of
  that directory or below it is uploaded and the walk of that subtree stops. The failed
  creation is the last call of the run; it is for a name on the way to some directory
  \<open>j\<close> of the walk, and the files the run has tried to upload are those of the
  directories before \<open>j\<close>: none of directory \<open>j\<close> and none of the directories
  after it, which include everything below it.
\<close>

theorem failed_creation_ends_run:
  assumes "isabs cwd" "wf_dir d"
    and "calls (upload_directory (Inr cwd) print d service local_directory parent_folder_id s)
           = before @ c # after"
    and "failed_create c"
  shows "after = []
     \<and> (\<exists>j k. j < length (tree_dirs d) \<and> k < length (fst (tree_dirs d ! j))
           \<and> call_target c = fst (tree_dirs d ! j) ! k
           \<and> map call_target
                (filter is_upload
                   (calls (upload_directory (Inr cwd) print d service local_directory parent_folder_id s)))
              = concat (map (dir_paths local_directory) (take j (tree_dirs d))))"
proof (cases "local_directory = []")
  case True
  with assms(3) show ?thesis by (simp add: calls_upload_directory_empty)
next
  case False
  with assms(1,2) have ml: "mirror_log local_directory parent_folder_id (tree_dirs d)
     (fst (upload_directory (Inr cwd) print d service local_directory parent_folder_id s))
     (calls (upload_directory (Inr cwd) print d service local_directory parent_folder_id s))"
    by (rule upload_directory_mirror_log)
  have "after = []"
    using ml assms(3,4) by (rule mirror_log_failed_last)
  moreover have "\<exists>j k. j < length (tree_dirs d) \<and> k < length (fst (tree_dirs d ! j))
           \<and> call_target c = fst (tree_dirs d ! j) ! k
           \<and> map call_target
                (filter is_upload
                   (calls (upload_directory (Inr cwd) print d service local_directory parent_folder_id s)))
              = concat (map (dir_paths local_directory) (take j (tree_dirs d)))"
    using ml assms(3,4) by (rule mirror_log_failed_dir)
  ultimately show ?thesis by (rule conjI)
qed

theorem failed_creation_ends_run_witness:
  "isabs ''/home/u''
   \<and> wf_dir (Dir [''a.txt''] [(''sub1'', Dir [''x.txt''] []), (''sub2'', Dir [''y.txt''] [])])
   \<and> calls (upload_directory (Inr ''/home/u'') quiet
              (Dir [''a.txt''] [(''sub1'', Dir [''x.txt''] []), (''sub2'', Dir [''y.txt''] [])])
              scripted ''root'' (Some ''P'') [Some ''U1'', None, Some ''F2'', Some ''U2''])
       = [UploadFile ''root/a.txt'' (Some ''P'') (Some ''U1'')]
         @ CreateFolder ''sub1'' (Some ''P'') None # []
   \<and> failed_create (CreateFolder ''sub1'' (Some ''P'') None)
   \<and> ([] :: call list) = []
   \<and> (\<exists>j k. j < length (tree_dirs (Dir [''a.txt''] [(''sub1'', Dir [''x.txt''] []), (''sub2'', Dir [''y.txt''] [])]))
        \<and> k < length (fst (tree_dirs (Dir [''a.txt''] [(''sub1'', Dir [''x.txt''] []), (''sub2'', Dir [''y.txt''] [])]) ! j))
        \<and> call_target (CreateFolder ''sub1'' (Some ''P'') None)
            = fst (tree_dirs (Dir [''a.txt''] [(''sub1'', Dir [''x.txt''] []), (''sub2'', Dir [''y.txt''] [])]) ! j) ! k
        \<and> map call_target
             (filter is_upload
                (calls (upload_directory (Inr ''/home/u'') quiet
                   (Dir [''a.txt''] [(''sub1'', Dir [''x.txt''] []), (''sub2'', Dir [''y.txt''] [])])
                   scripted ''root'' (Some ''P'') [Some ''U1'', None, Some ''F2'', Some ''U2''])))
           = concat (map (dir_paths ''root'')
               (take j (tree_dirs (Dir [''a.txt''] [(''sub1'', Dir [''x.txt''] []), (''sub2'', Dir [''y.txt''] [])])))))"
proof -
  have h1: "isabs ''/home/u''"
    by code_simp
  have h2: "wf_dir (Dir [''a.txt''] [(''sub1'', Dir [''x.txt''] []), (''sub2'', Dir [''y.txt''] [])])"
    by code_simp
  have h3: "calls (upload_directory (Inr ''/home/u'') quiet
              (Dir [''a.txt''] [(''sub1'', Dir [''x.txt''] []), (''sub2'', Dir [''y.txt''] [])])
              scripted ''root'' (Some ''P'') [Some ''U1'', None, Some ''F2'', Some ''U2''])
       = [UploadFile ''root/a.txt'' (Some ''P'') (Some ''U1'')]
         @ CreateFolder ''sub1'' (Some ''P'') None # []"
    by code_simp
  have h4: "failed_create (CreateFolder ''sub1'' (Some ''P'') None)"
    by simp
  note c = failed_creation_ends_run [OF h1 h2 h3 h4]
  show ?thesis
    by (rule conjI h1 h2 h3 h4 c [THEN conjunct1] c [THEN conjunct2])+
qed

text \<open>
  C6. For the mirror root the driver creates no folder and uses the top parent id as it
  is: a run that returns begins with the uploads of the root's files, one per file, each
  with the top parent id as parent; for a root without subdirectories these are all its
  calls.
\<close>

theorem root_uses_parent_directly:
  assumes "local_directory \<noteq> []"
    and "fst (upload_directory (Inr cwd) print (Dir files subdirs) service local_directory
                parent_folder_id s) = Inr ()"
  shows "\<exists>results rest. length results = length files
     \<and> calls (upload_directory (Inr cwd) print (Dir files subdirs) service local_directory parent_folder_id s)
         = uploads local_directory parent_folder_id files results @ rest
     \<and> (subdirs = [] \<longrightarrow> rest = [])"
proof -
  define es where "es = concat (map (\<lambda>(dirname, d). walk (path_join local_directory [dirname]) d) subdirs)"
  have run: "upload_directory (Inr cwd) print (Dir files subdirs) service local_directory parent_folder_id s
      = (case upload_files print service local_directory files parent_folder_id s of
           (Inl e, s2, log2) \<Rightarrow> (Inl e, s2, log2)
         | (Inr u, s2, log2) \<Rightarrow>
             (case upload_entries (Inr cwd) print service local_directory parent_folder_id es s2 of
                (r, s3, log3) \<Rightarrow> (r, s3, log2 @ log3)))"
    using assms(1)
    by (simp add: upload_directory_def os_walk_def relpath_self es_def [symmetric]
        split: prod.splits sum.splits)
  from upload_files_log [of files print service local_directory parent_folder_id s]
  show ?thesis
  proof
    assume "\<exists>results s'. length results = length files \<and>
      upload_files print service local_directory files parent_folder_id s
        = (Inr (), s', uploads local_directory parent_folder_id files results)"
    then obtain results s2 where len: "length results = length files"
      and uf: "upload_files print service local_directory files parent_folder_id s
         = (Inr (), s2, uploads local_directory parent_folder_id files results)"
      by blast
    obtain r s3 log3 where
      ue: "upload_entries (Inr cwd) print service local_directory parent_folder_id es s2 = (r, s3, log3)"
      by (cases "upload_entries (Inr cwd) print service local_directory parent_folder_id es s2") auto
    have "calls (upload_directory (Inr cwd) print (Dir files subdirs) service local_directory parent_folder_id s)
        = uploads local_directory parent_folder_id files results @ log3"
      by (simp add: run uf ue calls_def)
    moreover have "subdirs = [] \<longrightarrow> log3 = []"
      using ue by (auto simp: es_def)
    ultimately show ?thesis using len by blast
  next
    assume "\<exists>results e s'. length results < length files \<and>
      upload_files print service local_directory files parent_folder_id s
        = (Inl e, s', uploads local_directory parent_folder_id files results)"
    then obtain results e s2 where
      "upload_files print service local_directory files parent_folder_id s
         = (Inl e, s2, uploads local_directory parent_folder_id files results)"
      by blast
    then have "fst (upload_directory (Inr cwd) print (Dir files subdirs) service local_directory
        parent_folder_id s) = Inl e"
      by (simp add: run)
    with assms(2) show ?thesis by simp
  qed
qed

theorem root_uses_parent_directly_witness:
  "''root'' \<noteq> []
   \<and> fst (upload_directory (Inr ''/home/u'') quiet (Dir [''a.txt'', ''b.txt''] []) scripted ''root''
              (Some ''P'') [Some ''U1'', Some ''U2'']) = Inr ()
   \<and> (\<exists>results rest. length results = length [''a.txt'', ''b.txt'']
        \<and> calls (upload_directory (Inr ''/home/u'') quiet (Dir [''a.txt'', ''b.txt''] []) scripted ''root''
                   (Some ''P'') [Some ''U1'', Some ''U2''])
            = uploads ''root'' (Some ''P'') [''a.txt'', ''b.txt''] results @ rest
        \<and> (([] :: (string \<times> dir) list) = [] \<longrightarrow> rest = []))
   \<and> calls (upload_directory (Inr ''/home/u'') quiet (Dir [''a.txt'', ''b.txt''] []) scripted ''root''
              (Some ''P'') [Some ''U1'', Some ''U2''])
       = [UploadFile ''root/a.txt'' (Some ''P'') (Some ''U1''),
          UploadFile ''root/b.txt'' (Some ''P'') (Some ''U2'')]"
proof -
  have h1: "''root'' \<noteq> []"
    by simp
  have run: "calls (upload_directory (Inr ''/home/u'') quiet (Dir [''a.txt'', ''b.txt''] []) scripted ''root''
              (Some ''P'') [Some ''U1'', Some ''U2''])
       = [UploadFile ''root/a.txt'' (Some ''P'') (Some ''U1''),
          UploadFile ''root/b.txt'' (Some ''P'') (Some ''U2'')]"
    by code_simp
  have h2: "fst (upload_directory (Inr ''/home/u'') quiet (Dir [''a.txt'', ''b.txt''] []) scripted ''root''
              (Some ''P'') [Some ''U1'', Some ''U2'']) = Inr ()"
    by code_simp
  note c = root_uses_parent_directly [OF h1 h2]
  show ?thesis
    by (rule conjI h1 h2 run c)+
qed



text \<open>
  C9. On \<^verbatim>\<open>root/{a.txt, sub/b.txt}\<close> with remote parent \<^verbatim>\<open>P\<close>, when every call
  succeeds (the run returns, and every call has returned an id), the calls are the upload of \<^verbatim>\<open>a.txt\<close> into \<^verbatim>\<open>P\<close>, the creation of
  \<^verbatim>\<open>sub\<close> under \<^verbatim>\<open>P\<close>, returning some \<^verbatim>\<open>F1\<close>, and the upload of \<^verbatim>\<open>b.txt\<close>
  into \<^verbatim>\<open>F1\<close>, and nothing else. (The driver passes the path of a file;
  \<^verbatim>\<open>upload_file\<close> sends its base name.)
\<close>

theorem scenario_root_with_one_subdirectory:
  assumes "isabs cwd"
    and "fst (upload_directory (Inr cwd) print (Dir [''a.txt''] [(''sub'', Dir [''b.txt''] [])])
                service ''root'' (Some P) s) = Inr ()"
    and "\<forall>c \<in> set (calls (upload_directory (Inr cwd) print (Dir [''a.txt''] [(''sub'', Dir [''b.txt''] [])])
                           service ''root'' (Some P) s)). call_result c \<noteq> None"
  shows "\<exists>F1 U1 U2.
     calls (upload_directory (Inr cwd) print (Dir [''a.txt''] [(''sub'', Dir [''b.txt''] [])])
              service ''root'' (Some P) s)
       = [UploadFile ''root/a.txt'' (Some P) (Some U1),
          CreateFolder ''sub'' (Some P) (Some F1),
          UploadFile ''root/sub/b.txt'' (Some F1) (Some U2)]"
proof -
  let ?d = "Dir [''a.txt''] [(''sub'', Dir [''b.txt''] [])]"
  let ?log = "calls (upload_directory (Inr cwd) print ?d service ''root'' (Some P) s)"
  let ?out = "fst (upload_directory (Inr cwd) print ?d service ''root'' (Some P) s)"
  have wf: "wf_dir ?d" by (simp add: valid_name_def sep_def)
  have dirs: "tree_dirs ?d = [([], [''a.txt'']), ([''sub''], [''b.txt''])]"
    by (simp add: tree_dirs_def)
  have p1: "path_join (path_join ''root'' []) [''a.txt''] = ''root/a.txt''"
    by (simp add: path_join_def join_step_def sep_def)
  have p2: "path_join (path_join ''root'' [''sub'']) [''b.txt''] = ''root/sub/b.txt''"
    by (simp add: path_join_def join_step_def sep_def)
  have "mirror_log ''root'' (Some P) (tree_dirs ?d) ?out ?log"
    using assms(1) wf by (rule upload_directory_mirror_log) simp
  then have "mirror_log ''root'' (Some P) [([], [''a.txt'']), ([''sub''], [''b.txt''])] (Inr ()) ?log"
    by (simp only: dirs assms(2))
  from mirror_log_Cons [OF this] obtain results1 log1 where r1: "length results1 = Suc 0"
    and ml1: "mirror_log ''root'' (Some P) [([''sub''], [''b.txt''])] (Inr ()) log1"
    and log: "?log = uploads (path_join ''root'' []) (Some P) [''a.txt''] results1 @ log1"
    by auto
  from uploads_single [OF r1, of "path_join ''root'' []" "Some P" "''a.txt''"]
  obtain u1 where u1: "uploads (path_join ''root'' []) (Some P) [''a.txt''] results1
      = [UploadFile ''root/a.txt'' (Some P) u1]"
    by (auto simp only: p1)
  from mirror_log_Cons [OF ml1] show ?thesis
  proof
    assume "\<exists>ids results log'. length ids = length [''sub''] \<and> length results = length [''b.txt'']
       \<and> mirror_log ''root'' (Some P) [] (Inr ()) log'
       \<and> log1 = chain (Some P) [''sub''] ids
             @ uploads (path_join ''root'' [''sub'']) (resolved_id (Some P) ids) [''b.txt''] results @ log'"
    then obtain ids results log2 where ids: "length ids = Suc 0" and res: "length results = Suc 0"
      and ml2: "mirror_log ''root'' (Some P) [] (Inr ()) log2"
      and log1: "log1 = chain (Some P) [''sub''] ids
          @ uploads (path_join ''root'' [''sub'']) (resolved_id (Some P) ids) [''b.txt''] results @ log2"
      by auto
    from ids obtain F1 where F1: "ids = [F1]"
      using length_one [of ids] by auto
    from ml2 have log2: "log2 = []"
      by (rule mirror_log_Nil)
    from uploads_single [OF res, of "path_join ''root'' [''sub'']" "Some F1" "''b.txt''"]
    obtain u2 where u2: "uploads (path_join ''root'' [''sub'']) (Some F1) [''b.txt''] results
        = [UploadFile ''root/sub/b.txt'' (Some F1) u2]"
      by (auto simp only: p2)
    have full: "?log = [UploadFile ''root/a.txt'' (Some P) u1,
          CreateFolder ''sub'' (Some P) (Some F1),
          UploadFile ''root/sub/b.txt'' (Some F1) u2]"
      unfolding log u1 log1 F1 log2 by (simp add: u2)
    with assms(3) have "u1 \<noteq> None" "u2 \<noteq> None" by simp_all
    then obtain U1 U2 where "u1 = Some U1" "u2 = Some U2" by auto
    with full show ?thesis by blast
  next
    assume "\<exists>ids. length ids < length [''sub'']
       \<and> log1 = chain (Some P) (take (length ids) [''sub'']) ids
             @ [CreateFolder ([''sub''] ! length ids) (resolved_id (Some P) ids) None]"
    then obtain ids where
      log1: "log1 = chain (Some P) (take (length ids) [''sub'']) ids
          @ [CreateFolder ([''sub''] ! length ids) (resolved_id (Some P) ids) None]"
      by blast
    have "CreateFolder ([''sub''] ! length ids) (resolved_id (Some P) ids) None \<in> set ?log"
      by (simp add: log log1)
    with assms(3)
    have "call_result (CreateFolder ([''sub''] ! length ids) (resolved_id (Some P) ids) None) \<noteq> None"
      by (rule bspec)
    then show ?thesis by simp
  qed
qed

theorem scenario_root_with_one_subdirectory_witness:
  "isabs ''/home/u''
   \<and> fst (upload_directory (Inr ''/home/u'') quiet (Dir [''a.txt''] [(''sub'', Dir [''b.txt''] [])])
              scripted ''root'' (Some ''P'') [Some ''U1'', Some ''F1'', Some ''U2'']) = Inr ()
   \<and> list_all (\<lambda>c. call_result c \<noteq> None)
        (calls (upload_directory (Inr ''/home/u'') quiet (Dir [''a.txt''] [(''sub'', Dir [''b.txt''] [])])
                  scripted ''root'' (Some ''P'') [Some ''U1'', Some ''F1'', Some ''U2'']))
   \<and> (\<exists>F1 U1 U2.
        calls (upload_directory (Inr ''/home/u'') quiet (Dir [''a.txt''] [(''sub'', Dir [''b.txt''] [])])
                 scripted ''root'' (Some ''P'') [Some ''U1'', Some ''F1'', Some ''U2''])
          = [UploadFile ''root/a.txt'' (Some ''P'') (Some U1),
             CreateFolder ''sub'' (Some ''P'') (Some F1),
             UploadFile ''root/sub/b.txt'' (Some F1) (Some U2)])"
proof -
  have h1: "isabs ''/home/u''"
    by code_simp
  have h2: "list_all (\<lambda>c. call_result c \<noteq> None)
        (calls (upload_directory (Inr ''/home/u'') quiet (Dir [''a.txt''] [(''sub'', Dir [''b.txt''] [])])
                  scripted ''root'' (Some ''P'') [Some ''U1'', Some ''F1'', Some ''U2'']))"
    by code_simp
  from h2 have h2': "\<forall>c \<in> set (calls (upload_directory (Inr ''/home/u'') quiet
        (Dir [''a.txt''] [(''sub'', Dir [''b.txt''] [])])
        scripted ''root'' (Some ''P'') [Some ''U1'', Some ''F1'', Some ''U2''])). call_result c \<noteq> None"
    by (simp only: list_all_iff)
  have h0: "fst (upload_directory (Inr ''/home/u'') quiet (Dir [''a.txt''] [(''sub'', Dir [''b.txt''] [])])
              scripted ''root'' (Some ''P'') [Some ''U1'', Some ''F1'', Some ''U2'']) = Inr ()"
    by code_simp
  note c = scenario_root_with_one_subdirectory [OF h1 h0 h2']
  show ?thesis
    by (rule conjI h1 h0 h2 c)+
qed

section \<open>The path decomposition\<close>

text \<open>
  C8, as the program has it. The path decomposition is \<^verbatim>\<open>os.path.relpath\<close> followed
  by \<^verbatim>\<open>split\<close>; it has no failure of its own for paths outside the mirror root, and
  it reads the working directory of the process. It fails in two cases and no other:
  with \<^verbatim>\<open>ValueError\<close> on an empty visited path, which the walk never yields, and
  with the exception of \<^verbatim>\<open>os.getcwd()\<close> when the visited path or the mirror root is
  relative. When the mirror root is absolute, or \<^verbatim>\<open>os.getcwd()\<close> returns an absolute
  path, every directory of the walk, in order, is decomposed into the names that lead to
  it from the mirror root. A path that is not at or below the mirror root is decomposed
  into a list that begins with \<^verbatim>\<open>..\<close>.
\<close>

theorem path_decomposition:
  "((folder_names_of getcwd root local_directory = Inl e)
      = ((root = [] \<and> e = ValueError ''no path specified'')
         \<or> (root \<noteq> [] \<and> (\<not> isabs local_directory \<or> \<not> isabs root) \<and> getcwd = Inl e)))
   \<and> ((isabs local_directory \<or> (\<exists>cwd. getcwd = Inr cwd \<and> isabs cwd))
        \<and> wf_dir d \<and> local_directory \<noteq> []
      \<longrightarrow> map (\<lambda>(root, dirs, files). (folder_names_of getcwd root local_directory, files))
            (os_walk local_directory d)
          = map (\<lambda>(segs, files). (Inr segs, files)) (tree_dirs d))
   \<and> (isabs cwd \<and> other \<noteq> [] \<and> \<not> below cwd other local_directory
      \<longrightarrow> (\<exists>rest. folder_names_of (Inr cwd) other local_directory = Inr (''..'' # rest)))"
proof (intro conjI impI)
  show "(folder_names_of getcwd root local_directory = Inl e)
      = ((root = [] \<and> e = ValueError ''no path specified'')
         \<or> (root \<noteq> [] \<and> (\<not> isabs local_directory \<or> \<not> isabs root) \<and> getcwd = Inl e))"
    by (rule folder_names_of_failure)
next
  assume "(isabs local_directory \<or> (\<exists>cwd. getcwd = Inr cwd \<and> isabs cwd))
        \<and> wf_dir d \<and> local_directory \<noteq> []"
  then have "isabs local_directory \<or> (\<exists>cwd. getcwd = Inr cwd \<and> isabs cwd)"
    and "wf_dir d" and "local_directory \<noteq> []"
    by blast+
  then show "map (\<lambda>(root, dirs, files). (folder_names_of getcwd root local_directory, files))
            (os_walk local_directory d)
          = map (\<lambda>(segs, files). (Inr segs, files)) (tree_dirs d)"
    by (rule walk_folder_names)
next
  assume "isabs cwd \<and> other \<noteq> [] \<and> \<not> below cwd other local_directory"
  then have "isabs cwd" and "other \<noteq> []" and "\<not> below cwd other local_directory"
    by blast+
  then show "\<exists>rest. folder_names_of (Inr cwd) other local_directory = Inr (''..'' # rest)"
    by (rule folder_names_of_outside)
qed

theorem path_decomposition_witness:
  "isabs ''/home/u''
   \<and> wf_dir (Dir [''a.txt''] [(''sub'', Dir [''b.txt''] [(''deep'', Dir [] [])])])
   \<and> ''root'' \<noteq> []
   \<and> map (\<lambda>(root, dirs, files). (folder_names_of (Inr ''/home/u'') root ''root'', files))
        (os_walk ''root'' (Dir [''a.txt''] [(''sub'', Dir [''b.txt''] [(''deep'', Dir [] [])])]))
       = map (\<lambda>(segs, files). (Inr segs, files))
           (tree_dirs (Dir [''a.txt''] [(''sub'', Dir [''b.txt''] [(''deep'', Dir [] [])])]))
   \<and> tree_dirs (Dir [''a.txt''] [(''sub'', Dir [''b.txt''] [(''deep'', Dir [] [])])])
       = [([], [''a.txt'']), ([''sub''], [''b.txt'']), ([''sub'', ''deep''], [])]
   \<and> ''/srv/other'' \<noteq> []
   \<and> \<not> below ''/home/u'' ''/srv/other'' ''/srv/root''
   \<and> (\<exists>rest. folder_names_of (Inr ''/home/u'') ''/srv/other'' ''/srv/root'' = Inr (''..'' # rest))
   \<and> folder_names_of (Inr ''/home/u'') ''/srv/other'' ''/srv/root'' = Inr [''..'', ''other'']"
proof -
  have h1: "isabs ''/home/u''"
    by code_simp
  have h2: "wf_dir (Dir [''a.txt''] [(''sub'', Dir [''b.txt''] [(''deep'', Dir [] [])])])"
    by code_simp
  have h3: "''root'' \<noteq> []"
    by simp
  have h4: "tree_dirs (Dir [''a.txt''] [(''sub'', Dir [''b.txt''] [(''deep'', Dir [] [])])])
       = [([], [''a.txt'']), ([''sub''], [''b.txt'']), ([''sub'', ''deep''], [])]"
    by code_simp
  have h5: "''/srv/other'' \<noteq> []"
    by simp
  have h6: "\<not> below ''/home/u'' ''/srv/other'' ''/srv/root''"
    by code_simp
  have h7: "folder_names_of (Inr ''/home/u'') ''/srv/other'' ''/srv/root'' = Inr [''..'', ''other'']"
    by code_simp
  note t = path_decomposition [of "Inr ''/home/u''" _ "''root''" _
      "Dir [''a.txt''] [(''sub'', Dir [''b.txt''] [(''deep'', Dir [] [])])]"]
  have c2: "map (\<lambda>(root, dirs, files). (folder_names_of (Inr ''/home/u'') root ''root'', files))
        (os_walk ''root'' (Dir [''a.txt''] [(''sub'', Dir [''b.txt''] [(''deep'', Dir [] [])])]))
       = map (\<lambda>(segs, files). (Inr segs, files))
           (tree_dirs (Dir [''a.txt''] [(''sub'', Dir [''b.txt''] [(''deep'', Dir [] [])])]))"
    using t h1 h2 h3 by blast
  note t' = path_decomposition [of _ _ "''/srv/root''" _ _ "''/home/u''" "''/srv/other''"]
  have c3: "\<exists>rest. folder_names_of (Inr ''/home/u'') ''/srv/other'' ''/srv/root'' = Inr (''..'' # rest)"
    using t' h1 h5 h6 by blast
  show ?thesis
    by (rule conjI h1 h2 h3 h4 h5 h6 h7 c2 c3)+
qed

text \<open>
  The failure the claim does not have: in a process whose working directory has been
  removed, \<^verbatim>\<open>os.walk('.')\<close> still yields the mirror root, and its decomposition raises
  \<^verbatim>\<open>FileNotFoundError\<close>, which ends \<^verbatim>\<open>upload_directory\<close>.
\<close>

theorem path_decomposition_fails_without_cwd:
  "os_walk ''.'' (Dir [] []) = [(''.'', [], [])]
   \<and> folder_names_of (Inl (FileNotFoundError ''No such file or directory'')) ''.'' ''.''
       = Inl (FileNotFoundError ''No such file or directory'')
   \<and> upload_directory (Inl (FileNotFoundError ''No such file or directory'')) quiet (Dir [] [])
        scripted ''.'' (Some ''P'') []
       = (Inl (FileNotFoundError ''No such file or directory''), [], [])"
  by code_simp

end
